theory Spec2Isabelle
  imports Complex_Main "HOL-Library.Log_Nat" "HOL-Library.Code_Target_Nat"
begin

section \<open>JavaScript strings\<close>

text \<open>
  A JavaScript string is a sequence of UTF-16 code units. Code units are modelled as natural
  numbers, so \<open>length\<close> is the \<^verbatim>\<open>.length\<close> of the source and every function below is
  defined on all strings, not only on ASCII ones.
\<close>

type_synonym jsstring = "nat list"

definition js :: "string \<Rightarrow> jsstring" where
  "js s = map of_char s"

definition cu :: "char \<Rightarrow> nat" where
  "cu c = of_char c"

text \<open>White space and line terminators: the set removed by \<^verbatim>\<open>trim()\<close> and matched by \<^verbatim>\<open>\s\<close>.\<close>

definition is_ws :: "nat \<Rightarrow> bool" where
  "is_ws c = (c = 9 \<or> c = 10 \<or> c = 11 \<or> c = 12 \<or> c = 13 \<or> c = 32 \<or> c = 160 \<or> c = 5760
     \<or> (8192 \<le> c \<and> c \<le> 8202) \<or> c = 8232 \<or> c = 8233 \<or> c = 8239 \<or> c = 8287
     \<or> c = 12288 \<or> c = 65279)"

definition trim :: "jsstring \<Rightarrow> jsstring" where
  "trim s = rev (dropWhile is_ws (rev (dropWhile is_ws s)))"

definition is_digit :: "nat \<Rightarrow> bool" where
  "is_digit c = (48 \<le> c \<and> c \<le> 57)"

definition is_upper :: "nat \<Rightarrow> bool" where
  "is_upper c = (65 \<le> c \<and> c \<le> 90)"

definition is_lower :: "nat \<Rightarrow> bool" where
  "is_lower c = (97 \<le> c \<and> c \<le> 122)"

definition is_alpha :: "nat \<Rightarrow> bool" where
  "is_alpha c = (is_upper c \<or> is_lower c)"

definition is_alnum :: "nat \<Rightarrow> bool" where
  "is_alnum c = (is_alpha c \<or> is_digit c)"

definition is_hex :: "nat \<Rightarrow> bool" where
  "is_hex c = (is_digit c \<or> (65 \<le> c \<and> c \<le> 70) \<or> (97 \<le> c \<and> c \<le> 102))"

text \<open>\<^verbatim>\<open>\w\<close>\<close>

definition is_word :: "nat \<Rightarrow> bool" where
  "is_word c = (is_alnum c \<or> c = 95)"

text \<open>The dot of a regular expression without the \<^verbatim>\<open>s\<close> flag: anything but a line terminator.\<close>

definition is_dot :: "nat \<Rightarrow> bool" where
  "is_dot c = (c \<noteq> 10 \<and> c \<noteq> 13 \<and> c \<noteq> 8232 \<and> c \<noteq> 8233)"

definition ascii_lower :: "nat \<Rightarrow> nat" where
  "ascii_lower c = (if is_upper c then c + 32 else c)"

text \<open>The value of a digit in bases up to 36, as \<^verbatim>\<open>parseInt\<close> reads it.\<close>

definition digit_val :: "nat \<Rightarrow> nat option" where
  "digit_val c = (if is_digit c then Some (c - 48)
                  else if is_upper c then Some (c - 55)
                  else if is_lower c then Some (c - 87)
                  else None)"

definition is_radix_digit :: "nat \<Rightarrow> nat \<Rightarrow> bool" where
  "is_radix_digit R c = (case digit_val c of None \<Rightarrow> False | Some d \<Rightarrow> d < R)"

definition digits_value :: "nat \<Rightarrow> jsstring \<Rightarrow> nat" where
  "digits_value R ds = foldl (\<lambda>acc c. acc * R + (case digit_val c of None \<Rightarrow> 0 | Some d \<Rightarrow> d)) 0 ds"

text \<open>
  \<^verbatim>\<open>parseInt(s, R)\<close> for an explicit radix \<open>2 \<le> R \<le> 36\<close>: leading white space, a sign,
  for radix 16 an optional \<^verbatim>\<open>0x\<close>, then the longest run of digits. The result
  is the integer that the digits denote, \<open>None\<close> where there is no digit; \<open>num_of\<close> makes the
  Number of it, NaN for \<open>None\<close>. Where the source compares the result and does not keep it,
  and the pattern before allows 13 digits at most, the integer is used as it is.
\<close>

definition parseInt :: "jsstring \<Rightarrow> nat \<Rightarrow> int option" where
  "parseInt s R =
     (let s1 = dropWhile is_ws s;
          neg = (case s1 of [] \<Rightarrow> False | c # _ \<Rightarrow> c = 45);
          s2 = (case s1 of [] \<Rightarrow> [] | c # r \<Rightarrow> if c = 43 \<or> c = 45 then r else s1);
          s3 = (if R = 16 \<and> (take 2 s2 = [48, 120] \<or> take 2 s2 = [48, 88]) then drop 2 s2 else s2);
          ds = takeWhile (is_radix_digit R) s3
      in if ds = [] then None
         else Some (if neg then - int (digits_value R ds) else int (digits_value R ds)))"

text \<open>\<^verbatim>\<open>s.split(c)\<close> for a one-character separator.\<close>

fun split_on :: "nat \<Rightarrow> jsstring \<Rightarrow> jsstring list" where
  "split_on sep [] = [[]]"
| "split_on sep (c # cs) =
     (if c = sep then [] # split_on sep cs
      else (case split_on sep cs of [] \<Rightarrow> [[c]] | p # ps \<Rightarrow> (c # p) # ps))"

text \<open>\<^verbatim>\<open>s.replace(/a/g, 'b')\<close> for single characters.\<close>

definition replace_char :: "nat \<Rightarrow> nat \<Rightarrow> jsstring \<Rightarrow> jsstring" where
  "replace_char a b s = map (\<lambda>c. if c = a then b else c) s"

section \<open>Regular expressions\<close>

text \<open>
  The regular expressions of the source are transcribed into a small syntax tree and run by a
  backtracking matcher. \<open>rx_run r caps s\<close> lists, in the priority order of the JavaScript
  matcher, every way \<open>r\<close> can match a prefix of \<open>s\<close>: the captures made and the rest of the
  input. A repetition never iterates on an empty match, as in JavaScript.
\<close>

type_synonym captures = "(nat \<times> jsstring) list"

datatype rx = Eps | Cls "nat \<Rightarrow> bool" | Seq rx rx | Alt rx rx | Star rx | LazyStar rx
  | Grp nat rx | Eoi

fun rx_run :: "rx \<Rightarrow> captures \<Rightarrow> jsstring \<Rightarrow> (captures \<times> jsstring) list" where
  "rx_run Eps caps s = [(caps, s)]"
| "rx_run (Cls P) caps s = (case s of [] \<Rightarrow> [] | c # cs \<Rightarrow> if P c then [(caps, cs)] else [])"
| "rx_run (Seq a b) caps s = concat (map (\<lambda>(caps', s'). rx_run b caps' s') (rx_run a caps s))"
| "rx_run (Alt a b) caps s = rx_run a caps s @ rx_run b caps s"
| "rx_run (Star a) caps s =
     concat (map (\<lambda>(caps', s'). rx_run (Star a) caps' s')
                 (filter (\<lambda>(caps', s'). length s' < length s) (rx_run a caps s))) @ [(caps, s)]"
| "rx_run (LazyStar a) caps s =
     (caps, s) # concat (map (\<lambda>(caps', s'). rx_run (LazyStar a) caps' s')
                 (filter (\<lambda>(caps', s'). length s' < length s) (rx_run a caps s)))"
| "rx_run (Grp i a) caps s =
     map (\<lambda>(caps', s'). ((i, take (length s - length s') s) # caps', s')) (rx_run a caps s)"
| "rx_run Eoi caps s = (if s = [] then [(caps, s)] else [])"

declare rx_run.simps(5) [simp del] rx_run.simps(6) [simp del]

text \<open>Derived forms: \<^verbatim>\<open>r?\<close>, \<^verbatim>\<open>r+\<close>, \<^verbatim>\<open>r{n}\<close>, \<^verbatim>\<open>r{n,m}\<close>, \<^verbatim>\<open>r{n,}\<close>, literals.\<close>

definition Opt :: "rx \<Rightarrow> rx" where
  "Opt r = Alt r Eps"

definition Plus :: "rx \<Rightarrow> rx" where
  "Plus r = Seq r (Star r)"

fun rep :: "nat \<Rightarrow> rx \<Rightarrow> rx" where
  "rep n r = (if n = 0 then Eps else Seq r (rep (n - 1) r))"

fun upto_rep :: "nat \<Rightarrow> rx \<Rightarrow> rx" where
  "upto_rep n r = (if n = 0 then Eps else Opt (Seq r (upto_rep (n - 1) r)))"

declare rep.simps [simp del] upto_rep.simps [simp del]

definition rep_range :: "nat \<Rightarrow> nat \<Rightarrow> rx \<Rightarrow> rx" where
  "rep_range n m r = Seq (rep n r) (upto_rep (m - n) r)"

definition at_least :: "nat \<Rightarrow> rx \<Rightarrow> rx" where
  "at_least n r = Seq (rep n r) (Star r)"

definition seqs :: "rx list \<Rightarrow> rx" where
  "seqs rs = foldr Seq rs Eps"

definition alts :: "rx list \<Rightarrow> rx" where
  "alts rs = foldr Alt (butlast rs) (last rs)"

definition chr :: "char \<Rightarrow> rx" where
  "chr c = Cls (\<lambda>x. x = cu c)"

text \<open>A character under the \<^verbatim>\<open>i\<close> flag: only the two ASCII cases of a letter match it.\<close>

definition chr_ci :: "char \<Rightarrow> rx" where
  "chr_ci c = Cls (\<lambda>x. ascii_lower x = ascii_lower (cu c))"

definition lit :: "string \<Rightarrow> rx" where
  "lit s = seqs (map chr s)"

definition lit_ci :: "string \<Rightarrow> rx" where
  "lit_ci s = seqs (map chr_ci s)"

definition one_of :: "string \<Rightarrow> rx" where
  "one_of s = Cls (\<lambda>x. x \<in> set (js s))"

definition none_of :: "string \<Rightarrow> rx" where
  "none_of s = Cls (\<lambda>x. x \<notin> set (js s))"

definition any_char :: rx where
  "any_char = Cls (\<lambda>x. True)"

text \<open>
  \<^verbatim>\<open>re.test(s)\<close> and \<^verbatim>\<open>s.match(re)\<close> without the \<^verbatim>\<open>g\<close> flag. A pattern that starts with
  \<^verbatim>\<open>^\<close> is tried at the start of the input only; any other pattern at every position, from
  left to right.
\<close>

definition rx_test_anchored :: "rx \<Rightarrow> jsstring \<Rightarrow> bool" where
  "rx_test_anchored r s = (rx_run r [] s \<noteq> [])"

fun suffixes_of :: "jsstring \<Rightarrow> jsstring list" where
  "suffixes_of [] = [[]]"
| "suffixes_of (c # cs) = (c # cs) # suffixes_of cs"

definition rx_test :: "rx \<Rightarrow> jsstring \<Rightarrow> bool" where
  "rx_test r s = list_ex (\<lambda>t. rx_run r [] t \<noteq> []) (suffixes_of s)"

definition rx_match_anchored :: "rx \<Rightarrow> jsstring \<Rightarrow> captures option" where
  "rx_match_anchored r s = (case rx_run r [] s of [] \<Rightarrow> None | (caps, _) # _ \<Rightarrow> Some caps)"

text \<open>The value of a capture group: \<open>None\<close> is \<^verbatim>\<open>undefined\<close>.\<close>

definition group :: "captures \<Rightarrow> nat \<Rightarrow> jsstring option" where
  "group caps i = map_of caps i"

section \<open>JavaScript numbers\<close>

text \<open>
  A Number is an IEEE 754 double: a finite value, which is a rational here, an infinity or
  NaN. The two zeros are one value: nothing below divides by a zero that was computed or
  prints a number in a way that tells them apart.
\<close>

datatype jsnum = Fin rat | PInf | NInf | NaN

text \<open>The largest \<open>k\<close> with \<open>2 ^ k \<le> q\<close>, for a positive \<open>q\<close>.\<close>

definition ilog2 :: "rat \<Rightarrow> int" where
  "ilog2 q = (if 1 \<le> q then bitlen \<lfloor>q\<rfloor> - 1 else - bitlen (\<lceil>1 / q\<rceil> - 1))"

text \<open>The nearest integer, the even one of two that are equally near.\<close>

definition round_even :: "rat \<Rightarrow> int" where
  "round_even q =
     (let n = \<lfloor>q\<rfloor>; r = q - of_int n
      in if r < 1 / 2 then n else if 1 / 2 < r then n + 1 else if even n then n else n + 1)"

text \<open>
  The double nearest to a rational. Between \<open>2 ^ e\<close> and \<open>2 ^ (e + 1)\<close> the doubles are the
  multiples of \<open>2 ^ (e - 52)\<close>, below \<open>2 ^ (- 1022)\<close> those of \<open>2 ^ (- 1074)\<close>; what rounds to
  \<open>2 ^ 1024\<close> or beyond is an infinity.
\<close>

definition to_double :: "rat \<Rightarrow> jsnum" where
  "to_double q =
     (if q = 0 then Fin 0
      else
        let e = max (ilog2 \<bar>q\<bar>) (- 1022);
            u = 2 powi (e - 52);
            r = of_int (round_even (q / u)) * u
        in if 2 powi 1024 \<le> \<bar>r\<bar> then (if q < 0 then NInf else PInf) else Fin r)"

text \<open>
  The arithmetic: the sum, product and quotient of finite numbers are the exact ones, rounded;
  a division by zero gives an infinity or NaN, any comparison with NaN is false.
\<close>

instantiation jsnum :: "{zero, one, plus, uminus, minus, times, inverse, ord}"
begin

definition zero_jsnum :: jsnum where
  "zero_jsnum = Fin 0"

definition one_jsnum :: jsnum where
  "one_jsnum = Fin 1"

fun plus_jsnum :: "jsnum \<Rightarrow> jsnum \<Rightarrow> jsnum" where
  "plus_jsnum NaN y = NaN"
| "plus_jsnum x NaN = NaN"
| "plus_jsnum (Fin x) (Fin y) = to_double (x + y)"
| "plus_jsnum PInf NInf = NaN"
| "plus_jsnum NInf PInf = NaN"
| "plus_jsnum PInf y = PInf"
| "plus_jsnum NInf y = NInf"
| "plus_jsnum x PInf = PInf"
| "plus_jsnum x NInf = NInf"

fun uminus_jsnum :: "jsnum \<Rightarrow> jsnum" where
  "uminus_jsnum (Fin x) = Fin (- x)"
| "uminus_jsnum PInf = NInf"
| "uminus_jsnum NInf = PInf"
| "uminus_jsnum NaN = NaN"

definition minus_jsnum :: "jsnum \<Rightarrow> jsnum \<Rightarrow> jsnum" where
  "minus_jsnum x y = x + (- y)"

text \<open>The sign of a number that is not NaN: \<open>-1\<close>, \<open>0\<close> or \<open>1\<close>.\<close>

fun sign_of :: "jsnum \<Rightarrow> int" where
  "sign_of (Fin x) = (if x < 0 then - 1 else if x = 0 then 0 else 1)"
| "sign_of PInf = 1"
| "sign_of NInf = - 1"
| "sign_of NaN = 0"

definition inf_of_sign :: "int \<Rightarrow> jsnum" where
  "inf_of_sign sg = (if sg < 0 then NInf else if sg = 0 then NaN else PInf)"

fun times_jsnum :: "jsnum \<Rightarrow> jsnum \<Rightarrow> jsnum" where
  "times_jsnum NaN y = NaN"
| "times_jsnum x NaN = NaN"
| "times_jsnum (Fin x) (Fin y) = to_double (x * y)"
| "times_jsnum x y = inf_of_sign (sign_of x * sign_of y)"

text \<open>A zero divisor is the positive zero everywhere in the source.\<close>

fun divide_jsnum :: "jsnum \<Rightarrow> jsnum \<Rightarrow> jsnum" where
  "divide_jsnum NaN y = NaN"
| "divide_jsnum x NaN = NaN"
| "divide_jsnum (Fin x) (Fin y) =
     (if y = 0 then inf_of_sign (sign_of (Fin x)) else to_double (x / y))"
| "divide_jsnum (Fin x) y = Fin 0"
| "divide_jsnum x (Fin y) = inf_of_sign (sign_of x * (if y < 0 then - 1 else 1))"
| "divide_jsnum x y = NaN"

definition inverse_jsnum :: "jsnum \<Rightarrow> jsnum" where
  "inverse_jsnum x = 1 div x"

fun less_jsnum :: "jsnum \<Rightarrow> jsnum \<Rightarrow> bool" where
  "less_jsnum NaN y = False"
| "less_jsnum x NaN = False"
| "less_jsnum (Fin x) (Fin y) = (x < y)"
| "less_jsnum x NInf = False"
| "less_jsnum PInf y = False"
| "less_jsnum NInf y = True"
| "less_jsnum x PInf = True"

definition less_eq_jsnum :: "jsnum \<Rightarrow> jsnum \<Rightarrow> bool" where
  "less_eq_jsnum x y = (x < y \<or> (x = y \<and> x \<noteq> NaN))"

instance ..

end

text \<open>\<^verbatim>\<open>a === b\<close> and \<^verbatim>\<open>a !== b\<close> on numbers: NaN equals nothing.\<close>

definition strict_eq :: "jsnum \<Rightarrow> jsnum \<Rightarrow> bool" where
  "strict_eq x y = (x \<noteq> NaN \<and> y \<noteq> NaN \<and> x = y)"

definition strict_neq :: "jsnum \<Rightarrow> jsnum \<Rightarrow> bool" where
  "strict_neq x y = (\<not> strict_eq x y)"

text \<open>
  \<^verbatim>\<open>Math.round\<close>, which rounds a half up and is exact, and \<^verbatim>\<open>Math.max\<close> and \<^verbatim>\<open>Math.min\<close> of
  two numbers.
\<close>

definition js_round :: "jsnum \<Rightarrow> jsnum" where
  "js_round x = (case x of Fin q \<Rightarrow> Fin (of_int \<lfloor>q + 1 / 2\<rfloor>) | _ \<Rightarrow> x)"

definition js_max :: "jsnum \<Rightarrow> jsnum \<Rightarrow> jsnum" where
  "js_max x y = (if x = NaN \<or> y = NaN then NaN else if x < y then y else x)"

definition js_min :: "jsnum \<Rightarrow> jsnum \<Rightarrow> jsnum" where
  "js_min x y = (if x = NaN \<or> y = NaN then NaN else if y < x then y else x)"

text \<open>The Number that \<^verbatim>\<open>parseInt\<close> returns for the integer it read.\<close>

definition num_of :: "int option \<Rightarrow> jsnum" where
  "num_of x = (case x of None \<Rightarrow> NaN | Some i \<Rightarrow> to_double (of_int i))"

definition pow10 :: "int \<Rightarrow> rat" where
  "pow10 k = (if 0 \<le> k then 10 ^ nat k else 1 / 10 ^ nat (- k))"

text \<open>
  \<^verbatim>\<open>parseFloat\<close>: leading white space, a sign, then \<^verbatim>\<open>Infinity\<close> or the longest decimal
  literal, with its exponent when one is complete.
\<close>

definition parseFloat :: "jsstring \<Rightarrow> jsnum" where
  "parseFloat s =
     (let s1 = dropWhile is_ws s;
          neg = (take 1 s1 = [45]);
          s2 = (if take 1 s1 = [45] \<or> take 1 s1 = [43] then drop 1 s1 else s1)
      in if take 8 s2 = js ''Infinity'' then (if neg then NInf else PInf)
         else
           let ip = takeWhile is_digit s2;
               s3 = dropWhile is_digit s2;
               has_dot = (take 1 s3 = [46]);
               fp = (if has_dot then takeWhile is_digit (drop 1 s3) else []);
               s4 = (if has_dot then dropWhile is_digit (drop 1 s3) else s3)
           in if ip = [] \<and> fp = [] then NaN
              else
                let has_e = (take 1 s4 = [101] \<or> take 1 s4 = [69]);
                    s5 = drop 1 s4;
                    eneg = (take 1 s5 = [45]);
                    s6 = (if take 1 s5 = [45] \<or> take 1 s5 = [43] then drop 1 s5 else s5);
                    ep = takeWhile is_digit s6;
                    ex = (if has_e \<and> ep \<noteq> []
                          then (if eneg then - int (digits_value 10 ep) else int (digits_value 10 ep))
                          else 0);
                    m = of_nat (digits_value 10 (ip @ fp)) * pow10 (ex - int (length fp))
                in to_double (if neg then - m else m))"

section \<open>Host primitives\<close>

text \<open>
  The functions of the JavaScript host that the source calls. Each one that can throw returns
  a sum, \<open>Inl\<close> carrying the exception.
\<close>

datatype exn = InvalidCharacterError | SyntaxError | URIError | TypeError

definition bind :: "exn + 'a \<Rightarrow> ('a \<Rightarrow> exn + 'b) \<Rightarrow> exn + 'b" where
  "bind m f = (case m of Inl e \<Rightarrow> Inl e | Inr x \<Rightarrow> f x)"

text \<open>\<^verbatim>\<open>try { body } catch { handler }\<close>\<close>

definition try_catch :: "exn + 'a \<Rightarrow> (exn \<Rightarrow> exn + 'a) \<Rightarrow> exn + 'a" where
  "try_catch body handler = (case body of Inl e \<Rightarrow> handler e | Inr x \<Rightarrow> Inr x)"

subsection \<open>atob\<close>

text \<open>
  The forgiving base64 decoder of the HTML standard: ASCII white space is dropped, one or two
  trailing \<^verbatim>\<open>=\<close> are dropped when the length is a multiple of four, a length of 1 modulo 4
  or a character outside the alphabet is an error, and left-over bits are discarded.
\<close>

definition b64_value :: "nat \<Rightarrow> nat option" where
  "b64_value c = (if is_upper c then Some (c - 65)
                  else if is_lower c then Some (c - 71)
                  else if is_digit c then Some (c + 4)
                  else if c = 43 then Some 62
                  else if c = 47 then Some 63
                  else None)"

fun b64_bytes :: "nat list \<Rightarrow> nat list" where
  "b64_bytes (a # b # c # d # rest) =
     (a * 4 + b div 16) # ((b mod 16) * 16 + c div 4) # ((c mod 4) * 64 + d) # b64_bytes rest"
| "b64_bytes [a, b, c] = [a * 4 + b div 16, (b mod 16) * 16 + c div 4]"
| "b64_bytes [a, b] = [a * 4 + b div 16]"
| "b64_bytes _ = []"

definition is_ascii_ws :: "nat \<Rightarrow> bool" where
  "is_ascii_ws c = (c = 9 \<or> c = 10 \<or> c = 12 \<or> c = 13 \<or> c = 32)"

definition strip_padding :: "jsstring \<Rightarrow> jsstring" where
  "strip_padding d =
     (if length d mod 4 = 0 \<and> d \<noteq> [] \<and> last d = 61
      then (if butlast d \<noteq> [] \<and> last (butlast d) = 61 then butlast (butlast d) else butlast d)
      else d)"

definition atob :: "jsstring \<Rightarrow> exn + jsstring" where
  "atob s =
     (let d = strip_padding (filter (\<lambda>c. \<not> is_ascii_ws c) s)
      in if length d mod 4 = 1 then Inl InvalidCharacterError
         else (case those (map b64_value d) of
                 None \<Rightarrow> Inl InvalidCharacterError
               | Some vs \<Rightarrow> Inr (b64_bytes vs)))"

subsection \<open>decodeURIComponent\<close>

definition hex_octet :: "jsstring \<Rightarrow> nat option" where
  "hex_octet s = (case s of
       a # b # _ \<Rightarrow> (if is_hex a \<and> is_hex b then Some (digits_value 16 [a, b]) else None)
     | _ \<Rightarrow> None)"

text \<open>The number of leading 1 bits of an octet.\<close>

definition leading_ones :: "nat \<Rightarrow> nat" where
  "leading_ones b = (if b < 128 then 0 else if b < 192 then 1 else if b < 224 then 2
                     else if b < 240 then 3 else if b < 248 then 4 else 5)"

text \<open>\<open>n\<close> further escapes \<^verbatim>\<open>%XX\<close>, each required to be there.\<close>

fun cont_octets :: "nat \<Rightarrow> jsstring \<Rightarrow> nat list option" where
  "cont_octets n s =
     (if n = 0 then Some []
      else (case s of
              [] \<Rightarrow> None
            | c # cs \<Rightarrow>
                if c \<noteq> 37 then None
                else (case hex_octet cs of
                        None \<Rightarrow> None
                      | Some b \<Rightarrow> (case cont_octets (n - 1) (drop 2 cs) of
                                     None \<Rightarrow> None
                                   | Some bs \<Rightarrow> Some (b # bs)))))"

declare cont_octets.simps [simp del]

definition is_cont :: "nat \<Rightarrow> bool" where
  "is_cont b = (128 \<le> b \<and> b < 192)"

text \<open>The code point of a well-formed UTF-8 sequence of two to four octets.\<close>

definition utf8_decode :: "nat list \<Rightarrow> nat option" where
  "utf8_decode os = (case os of
       [a, b] \<Rightarrow>
         (if 194 \<le> a \<and> a \<le> 223 \<and> is_cont b then Some ((a - 192) * 64 + (b - 128)) else None)
     | [a, b, c] \<Rightarrow>
         (if 224 \<le> a \<and> a \<le> 239 \<and> is_cont b \<and> is_cont c
             \<and> (a = 224 \<longrightarrow> 160 \<le> b) \<and> (a = 237 \<longrightarrow> b < 160)
          then Some ((a - 224) * 4096 + (b - 128) * 64 + (c - 128)) else None)
     | [a, b, c, d] \<Rightarrow>
         (if 240 \<le> a \<and> a \<le> 244 \<and> is_cont b \<and> is_cont c \<and> is_cont d
             \<and> (a = 240 \<longrightarrow> 144 \<le> b) \<and> (a = 244 \<longrightarrow> b < 144)
          then Some ((a - 240) * 262144 + (b - 128) * 4096 + (c - 128) * 64 + (d - 128))
          else None)
     | _ \<Rightarrow> None)"

definition utf16_encode :: "nat \<Rightarrow> jsstring" where
  "utf16_encode v = (if v < 65536 then [v]
                     else [55296 + (v - 65536) div 1024, 56320 + (v - 65536) mod 1024])"

fun decodeURIComponent :: "jsstring \<Rightarrow> exn + jsstring" where
  "decodeURIComponent [] = Inr []"
| "decodeURIComponent (c # cs) =
     (if c \<noteq> 37 then map_sum id (\<lambda>r. c # r) (decodeURIComponent cs)
      else (case hex_octet cs of
              None \<Rightarrow> Inl URIError
            | Some b \<Rightarrow>
                let n = leading_ones b in
                if n = 0 then map_sum id (\<lambda>r. b # r) (decodeURIComponent (drop 2 cs))
                else if n = 1 \<or> 4 < n then Inl URIError
                else (case cont_octets (n - 1) (drop 2 cs) of
                        None \<Rightarrow> Inl URIError
                      | Some bs \<Rightarrow>
                          (case utf8_decode (b # bs) of
                             None \<Rightarrow> Inl URIError
                           | Some v \<Rightarrow>
                               map_sum id (\<lambda>r. utf16_encode v @ r)
                                 (decodeURIComponent (drop (2 + 3 * (n - 1)) cs))))))"

subsection \<open>JSON.parse\<close>

text \<open>
  The values JSON.parse returns. The lexer reads a number as the exact decimal \<open>m * 10 ^ e\<close>
  of its literal, with \<open>m\<close> not divisible by ten; the value is the double nearest to it. An
  object is the list of its properties in the order in which JavaScript enumerates them.
\<close>

datatype jsvalue = JNull | JBool bool | JNum jsnum | JStr jsstring
  | JArr "jsvalue list" | JObj "(jsstring \<times> jsvalue) list"

function norm_dec :: "int \<Rightarrow> int \<Rightarrow> int \<times> int" where
  "norm_dec m e = (if m = 0 then (0, 0)
                   else if m mod 10 = 0 then norm_dec (m div 10) (e + 1)
                   else (m, e))"
  by pat_completeness auto
termination
  by (relation "measure (\<lambda>(m, e). nat \<bar>m\<bar>)") auto

declare norm_dec.simps [simp del]

datatype token = TLBrace | TRBrace | TLBrack | TRBrack | TColon | TComma
  | TStr jsstring | TNum int int | TTrue | TFalse | TNull

definition simple_escape :: "nat \<Rightarrow> nat option" where
  "simple_escape e = (if e = 34 \<or> e = 92 \<or> e = 47 then Some e
                      else if e = 98 then Some 8
                      else if e = 102 then Some 12
                      else if e = 110 then Some 10
                      else if e = 114 then Some 13
                      else if e = 116 then Some 9
                      else None)"

definition hex4 :: "jsstring \<Rightarrow> nat option" where
  "hex4 s = (if 4 \<le> length s \<and> list_all is_hex (take 4 s)
             then Some (digits_value 16 (take 4 s)) else None)"

text \<open>The body of a string literal after its opening quote: the string and the rest.\<close>

fun lex_string :: "jsstring \<Rightarrow> (jsstring \<times> jsstring) option" where
  "lex_string [] = None"
| "lex_string (c # cs) =
     (if c = 34 then Some ([], cs)
      else if c = 92 then
        (case cs of
           [] \<Rightarrow> None
         | e # cs' \<Rightarrow>
             if e = 117 then
               (case hex4 cs' of
                  None \<Rightarrow> None
                | Some u \<Rightarrow> map_option (\<lambda>(str, rest). (u # str, rest)) (lex_string (drop 4 cs')))
             else
               (case simple_escape e of
                  None \<Rightarrow> None
                | Some x \<Rightarrow> map_option (\<lambda>(str, rest). (x # str, rest)) (lex_string cs')))
      else if c < 32 then None
      else map_option (\<lambda>(str, rest). (c # str, rest)) (lex_string cs))"

text \<open>
  A number literal \<^verbatim>\<open>-?(0|[1-9][0-9]*)(\.[0-9]+)?([eE][+-]?[0-9]+)?\<close> at the head of the
  input: its value and the rest.
\<close>

definition lex_number :: "jsstring \<Rightarrow> ((int \<times> int) \<times> jsstring) option" where
  "lex_number s =
     (let neg = (case s of [] \<Rightarrow> False | c # _ \<Rightarrow> c = 45);
          s1 = (if neg then tl s else s);
          ip = takeWhile is_digit s1;
          s2 = dropWhile is_digit s1
      in if ip = [] \<or> (take 1 ip = [48] \<and> 1 < length ip) then None
         else
           let has_frac = (case s2 of [] \<Rightarrow> False | c # _ \<Rightarrow> c = 46);
               fp = (if has_frac then takeWhile is_digit (tl s2) else []);
               s3 = (if has_frac then dropWhile is_digit (tl s2) else s2)
           in if has_frac \<and> fp = [] then None
              else
                let has_exp = (case s3 of [] \<Rightarrow> False | c # _ \<Rightarrow> c = 69 \<or> c = 101);
                    s4 = (if has_exp then tl s3 else s3);
                    eneg = (case s4 of [] \<Rightarrow> False | c # _ \<Rightarrow> c = 45);
                    s5 = (case s4 of [] \<Rightarrow> [] | c # r \<Rightarrow> if c = 43 \<or> c = 45 then r else s4);
                    ep = (if has_exp then takeWhile is_digit s5 else []);
                    s6 = (if has_exp then dropWhile is_digit s5 else s3)
                in if has_exp \<and> ep = [] then None
                   else
                     let m = int (digits_value 10 (ip @ fp));
                         x = int (digits_value 10 ep)
                     in Some (norm_dec (if neg then - m else m)
                                ((if eneg then - x else x) - int (length fp)), s6))"

lemma lex_string_shorter:
  "lex_string s = Some (str, rest) \<Longrightarrow> length rest < length s"
proof (induction s arbitrary: str rest rule: lex_string.induct)
  case 1
  then show ?case by simp
next
  case (2 c cs)
  show ?case
  proof (cases "c = 34")
    case True
    with "2.prems" show ?thesis by auto
  next
    case False
    note not_quote = this
    show ?thesis
    proof (cases "c = 92")
      case True
      then obtain e cs' where cs: "cs = e # cs'"
        using "2.prems" by (cases cs) auto
      show ?thesis
      proof (cases "e = 117")
        case True
        with "2.prems" \<open>c = 92\<close> cs obtain u str' where
          "hex4 cs' = Some u" "lex_string (drop 4 cs') = Some (str', rest)"
          by (auto split: option.splits)
        with "2.IH"(1)[OF not_quote \<open>c = 92\<close> cs True] have "length rest < length (drop 4 cs')"
          by blast
        then show ?thesis using cs by simp
      next
        case False
        with "2.prems" \<open>c = 92\<close> cs obtain x str' where
          "simple_escape e = Some x" "lex_string cs' = Some (str', rest)"
          by (auto split: option.splits)
        with "2.IH"(2)[OF not_quote \<open>c = 92\<close> cs False] have "length rest < length cs'"
          by blast
        then show ?thesis using cs by simp
      qed
    next
      case False
      with "2.prems" not_quote obtain str' where "\<not> c < 32" "lex_string cs = Some (str', rest)"
        by (auto split: if_splits)
      with "2.IH"(3)[OF not_quote False] have "length rest < length cs"
        by blast
      then show ?thesis by simp
    qed
  qed
qed

lemma length_tl_le: "length (tl s) \<le> length s"
  by simp

lemma lex_number_shorter:
  assumes "lex_number s = Some (x, rest)"
  shows "length rest < length s"
proof -
  define neg where "neg = (case s of [] \<Rightarrow> False | c # _ \<Rightarrow> c = 45)"
  define s1 where "s1 = (if neg then tl s else s)"
  define s2 where "s2 = dropWhile is_digit s1"
  define has_frac where "has_frac = (case s2 of [] \<Rightarrow> False | c # _ \<Rightarrow> c = 46)"
  define s3 where "s3 = (if has_frac then dropWhile is_digit (tl s2) else s2)"
  define has_exp where "has_exp = (case s3 of [] \<Rightarrow> False | c # _ \<Rightarrow> c = 69 \<or> c = 101)"
  define s4 where "s4 = (if has_exp then tl s3 else s3)"
  define s5 where "s5 = (case s4 of [] \<Rightarrow> [] | c # r \<Rightarrow> if c = 43 \<or> c = 45 then r else s4)"
  define s6 where "s6 = (if has_exp then dropWhile is_digit s5 else s3)"
  from assms have nonempty: "takeWhile is_digit s1 \<noteq> []" and rest: "rest = s6"
    unfolding lex_number_def Let_def neg_def [symmetric] s1_def [symmetric] s2_def [symmetric]
      has_frac_def [symmetric] s3_def [symmetric] has_exp_def [symmetric] s4_def [symmetric]
      s5_def [symmetric] s6_def [symmetric]
    by (auto split: if_splits)
  have "length s1 = length (takeWhile is_digit s1) + length s2"
    unfolding s2_def by (metis length_append takeWhile_dropWhile_id)
  with nonempty have l2: "length s2 < length s1"
    by (cases "takeWhile is_digit s1") auto
  have l1: "length s1 \<le> length s"
    unfolding s1_def by simp
  have l3: "length s3 \<le> length s2"
    unfolding s3_def using length_dropWhile_le [of is_digit "tl s2"] length_tl_le [of s2]
    by (simp del: length_tl)
  have l4: "length s4 \<le> length s3"
    unfolding s4_def by simp
  have l5: "length s5 \<le> length s4"
    unfolding s5_def by (cases s4) auto
  have l6: "length s6 \<le> length s3"
    unfolding s6_def using length_dropWhile_le [of is_digit s5] l5 l4 by auto
  from l1 l2 l3 l6 rest show ?thesis by simp
qed

function lex :: "jsstring \<Rightarrow> token list option" where
  "lex [] = Some []"
| "lex (c # cs) =
     (if c = 9 \<or> c = 10 \<or> c = 13 \<or> c = 32 then lex cs
      else if c = 123 then map_option (Cons TLBrace) (lex cs)
      else if c = 125 then map_option (Cons TRBrace) (lex cs)
      else if c = 91 then map_option (Cons TLBrack) (lex cs)
      else if c = 93 then map_option (Cons TRBrack) (lex cs)
      else if c = 58 then map_option (Cons TColon) (lex cs)
      else if c = 44 then map_option (Cons TComma) (lex cs)
      else if c = 34 then
        (case lex_string cs of
           None \<Rightarrow> None
         | Some (str, rest) \<Rightarrow> map_option (Cons (TStr str)) (lex rest))
      else if c = 45 \<or> is_digit c then
        (case lex_number (c # cs) of
           None \<Rightarrow> None
         | Some ((m, e), rest) \<Rightarrow> map_option (Cons (TNum m e)) (lex rest))
      else if take 4 (c # cs) = js ''true'' then map_option (Cons TTrue) (lex (drop 3 cs))
      else if take 5 (c # cs) = js ''false'' then map_option (Cons TFalse) (lex (drop 4 cs))
      else if take 4 (c # cs) = js ''null'' then map_option (Cons TNull) (lex (drop 3 cs))
      else None)"
  by pat_completeness auto
termination
proof (relation "measure length", goal_cases)
  case 1
  show ?case by simp
next
  case (9 c cs x2 x y)
  then show ?case using lex_string_shorter [of cs x y] by simp
next
  case (10 c cs x2 x y xa ya)
  then show ?case using lex_number_shorter [of "c # cs" x y] by simp
qed simp_all

declare lex.simps [simp del]

text \<open>
  JavaScript enumerates the array-index keys of an object first, in ascending order, and the
  other keys after them in the order of their creation; defining a property that exists
  replaces its value in place.
\<close>

definition array_index :: "jsstring \<Rightarrow> nat option" where
  "array_index k =
     (if k \<noteq> [] \<and> list_all is_digit k \<and> (k = [48] \<or> take 1 k \<noteq> [48])
         \<and> digits_value 10 k < 4294967295
      then Some (digits_value 10 k) else None)"

fun obj_insert :: "jsstring \<Rightarrow> jsvalue \<Rightarrow> (jsstring \<times> jsvalue) list \<Rightarrow> (jsstring \<times> jsvalue) list" where
  "obj_insert k v [] = [(k, v)]"
| "obj_insert k v ((k', v') # ms) =
     (case array_index k of
        None \<Rightarrow> (k', v') # obj_insert k v ms
      | Some i \<Rightarrow>
          (case array_index k' of
             None \<Rightarrow> (k, v) # (k', v') # ms
           | Some j \<Rightarrow> if j < i then (k', v') # obj_insert k v ms else (k, v) # (k', v') # ms))"

definition obj_put :: "jsstring \<Rightarrow> jsvalue \<Rightarrow> (jsstring \<times> jsvalue) list \<Rightarrow> (jsstring \<times> jsvalue) list" where
  "obj_put k v ms =
     (if k \<in> fst ` set ms then map (\<lambda>(k', v'). if k' = k then (k', v) else (k', v')) ms
      else obj_insert k v ms)"

text \<open>
  The parser runs over the tokens with a stack of the arrays and objects that are open.
  \<open>PValue\<close> expects a value, \<open>PValueOrEnd\<close> a value or \<^verbatim>\<open>]\<close>, \<open>PKeyOrEnd\<close> a key or
  \<^verbatim>\<open>}\<close>, \<open>PKey\<close> a key, \<open>PColon\<close> a colon, \<open>PAfter\<close> a comma or the closing bracket, and
  \<open>PDone\<close> holds the finished value and expects the end of the input.
\<close>

datatype frame = InArr "jsvalue list" | InObj "(jsstring \<times> jsvalue) list"
  | InMember "(jsstring \<times> jsvalue) list" jsstring

datatype pmode = PValue | PValueOrEnd | PKeyOrEnd | PKey | PColon | PAfter | PDone jsvalue

fun deliver :: "jsvalue \<Rightarrow> frame list \<Rightarrow> (pmode \<times> frame list) option" where
  "deliver v [] = Some (PDone v, [])"
| "deliver v (InArr vs # st) = Some (PAfter, InArr (vs @ [v]) # st)"
| "deliver v (InMember ms k # st) = Some (PAfter, InObj (obj_put k v ms) # st)"
| "deliver v (InObj ms # st) = None"

definition accept_value :: "token \<Rightarrow> frame list \<Rightarrow> (pmode \<times> frame list) option" where
  "accept_value t st = (case t of
       TLBrace \<Rightarrow> Some (PKeyOrEnd, InObj [] # st)
     | TLBrack \<Rightarrow> Some (PValueOrEnd, InArr [] # st)
     | TStr s \<Rightarrow> deliver (JStr s) st
     | TNum m e \<Rightarrow> deliver (JNum (to_double (of_int m * pow10 e))) st
     | TTrue \<Rightarrow> deliver (JBool True) st
     | TFalse \<Rightarrow> deliver (JBool False) st
     | TNull \<Rightarrow> deliver JNull st
     | _ \<Rightarrow> None)"

definition accept_key :: "token \<Rightarrow> frame list \<Rightarrow> (pmode \<times> frame list) option" where
  "accept_key t st = (case (t, st) of
       (TStr k, InObj ms # st') \<Rightarrow> Some (PColon, InMember ms k # st')
     | _ \<Rightarrow> None)"

definition parse_step :: "pmode \<Rightarrow> frame list \<Rightarrow> token \<Rightarrow> (pmode \<times> frame list) option" where
  "parse_step m st t = (case m of
       PValue \<Rightarrow> accept_value t st
     | PValueOrEnd \<Rightarrow>
         (case (t, st) of
            (TRBrack, InArr vs # st') \<Rightarrow> deliver (JArr vs) st'
          | _ \<Rightarrow> accept_value t st)
     | PKeyOrEnd \<Rightarrow>
         (case (t, st) of
            (TRBrace, InObj ms # st') \<Rightarrow> deliver (JObj ms) st'
          | _ \<Rightarrow> accept_key t st)
     | PKey \<Rightarrow> accept_key t st
     | PColon \<Rightarrow> (case t of TColon \<Rightarrow> Some (PValue, st) | _ \<Rightarrow> None)
     | PAfter \<Rightarrow>
         (case (t, st) of
            (TComma, InArr vs # st') \<Rightarrow> Some (PValue, st)
          | (TRBrack, InArr vs # st') \<Rightarrow> deliver (JArr vs) st'
          | (TComma, InObj ms # st') \<Rightarrow> Some (PKey, st)
          | (TRBrace, InObj ms # st') \<Rightarrow> deliver (JObj ms) st'
          | _ \<Rightarrow> None)
     | PDone v \<Rightarrow> None)"

fun parse_tokens :: "pmode \<Rightarrow> frame list \<Rightarrow> token list \<Rightarrow> jsvalue option" where
  "parse_tokens m st [] = (case m of PDone v \<Rightarrow> Some v | _ \<Rightarrow> None)"
| "parse_tokens m st (t # ts) =
     (case parse_step m st t of
        None \<Rightarrow> None
      | Some (m', st') \<Rightarrow> parse_tokens m' st' ts)"

definition JSON_parse :: "jsstring \<Rightarrow> exn + jsvalue" where
  "JSON_parse s =
     (case lex s of
        None \<Rightarrow> Inl SyntaxError
      | Some ts \<Rightarrow> (case parse_tokens PValue [] ts of
                     None \<Rightarrow> Inl SyntaxError
                   | Some v \<Rightarrow> Inr v))"

text \<open>
  Reading a property of a parsed value, \<^verbatim>\<open>v.name\<close>, for a name that no prototype defines:
  \<open>None\<close> is \<^verbatim>\<open>undefined\<close>, and reading from \<^verbatim>\<open>null\<close> throws.
\<close>

definition get_prop :: "jsvalue \<Rightarrow> jsstring \<Rightarrow> exn + jsvalue option" where
  "get_prop v name = (case v of
       JNull \<Rightarrow> Inl TypeError
     | JObj ms \<Rightarrow> Inr (map_of ms name)
     | _ \<Rightarrow> Inr None)"

text \<open>The truth value of a value in a condition.\<close>

definition truthy :: "jsvalue option \<Rightarrow> bool" where
  "truthy v = (case v of
       None \<Rightarrow> False
     | Some JNull \<Rightarrow> False
     | Some (JBool b) \<Rightarrow> b
     | Some (JNum x) \<Rightarrow> x \<noteq> Fin 0 \<and> x \<noteq> NaN
     | Some (JStr s) \<Rightarrow> s \<noteq> []
     | Some (JArr vs) \<Rightarrow> True
     | Some (JObj ms) \<Rightarrow> True)"

section \<open>The type detector\<close>

datatype DetectedType = TJson | THtml | TColor | TTimestamp | TCss | TJavascript | TText
  | TImage | TBase64 | TUrl | TJwt | TNumber | TUuid

text \<open>
  The \<^verbatim>\<open>parsed\<close> field of a result: the decoded token, a decoded string, the base and value
  of a number literal, a JSON value, or an epoch in milliseconds.
\<close>

datatype parsed = ParsedJwt jsvalue jsvalue jsstring | ParsedString jsstring
  | ParsedNumber nat jsnum | ParsedJson jsvalue | ParsedEpoch int

record DetectionResult =
  type :: DetectedType
  confidence :: rat
  raw :: jsstring
  parsed :: "parsed option"

subsection \<open>The patterns\<close>

definition hex_cls :: rx where
  "hex_cls = Cls is_hex"

definition digit_cls :: rx where
  "digit_cls = Cls is_digit"

definition ws_cls :: rx where
  "ws_cls = Cls is_ws"

definition dot_cls :: rx where
  "dot_cls = Cls is_dot"

text \<open>\<^verbatim>\<open>[A-Za-z0-9_-]\<close> and \<^verbatim>\<open>[A-Za-z0-9+/=]\<close>\<close>

definition is_b64url :: "nat \<Rightarrow> bool" where
  "is_b64url c = (is_alnum c \<or> c = 95 \<or> c = 45)"

definition is_b64 :: "nat \<Rightarrow> bool" where
  "is_b64 c = (is_alnum c \<or> c = 43 \<or> c = 47 \<or> c = 61)"

text \<open>\<^verbatim>\<open>/^#([A-Fa-f0-9]{3}|[A-Fa-f0-9]{6}|[A-Fa-f0-9]{8})$/\<close>\<close>

definition HEX_COLOR_REGEX :: rx where
  "HEX_COLOR_REGEX =
     seqs [chr CHR ''#'', Grp 1 (alts [rep 3 hex_cls, rep 6 hex_cls, rep 8 hex_cls]), Eoi]"

text \<open>\<^verbatim>\<open>/^rgba?\s*\(\s*(\d{1,3})\s*,\s*(\d{1,3})\s*,\s*(\d{1,3})\s*(,\s*[\d.]+)?\s*\)$/i\<close>\<close>

definition RGB_COLOR_REGEX :: rx where
  "RGB_COLOR_REGEX =
     seqs [lit_ci ''rgb'', Opt (chr_ci CHR ''a''), Star ws_cls, chr CHR ''('', Star ws_cls,
           Grp 1 (rep_range 1 3 digit_cls), Star ws_cls, chr CHR '','', Star ws_cls,
           Grp 2 (rep_range 1 3 digit_cls), Star ws_cls, chr CHR '','', Star ws_cls,
           Grp 3 (rep_range 1 3 digit_cls), Star ws_cls,
           Opt (Grp 4 (seqs [chr CHR '','', Star ws_cls, Plus (Cls (\<lambda>c. is_digit c \<or> c = 46))])),
           Star ws_cls, chr CHR '')'', Eoi]"

text \<open>\<^verbatim>\<open>/^hsla?\s*\(\s*(\d{1,3})\s*,\s*(\d{1,3})%?\s*,\s*(\d{1,3})%?\s*(,\s*[\d.]+)?\s*\)$/i\<close>\<close>

definition HSL_COLOR_REGEX :: rx where
  "HSL_COLOR_REGEX =
     seqs [lit_ci ''hsl'', Opt (chr_ci CHR ''a''), Star ws_cls, chr CHR ''('', Star ws_cls,
           Grp 1 (rep_range 1 3 digit_cls), Star ws_cls, chr CHR '','', Star ws_cls,
           Grp 2 (rep_range 1 3 digit_cls), Opt (chr CHR ''%''), Star ws_cls, chr CHR '','',
           Star ws_cls,
           Grp 3 (rep_range 1 3 digit_cls), Opt (chr CHR ''%''), Star ws_cls,
           Opt (Grp 4 (seqs [chr CHR '','', Star ws_cls, Plus (Cls (\<lambda>c. is_digit c \<or> c = 46))])),
           Star ws_cls, chr CHR '')'', Eoi]"

text \<open>\<^verbatim>\<open>/<\/?[a-z][\s\S]*?>/i\<close> and \<^verbatim>\<open>/^[\s\S]*<[a-z][\s\S]*>[\s\S]*$/i\<close>\<close>

definition HTML_TAG_REGEX :: rx where
  "HTML_TAG_REGEX =
     seqs [chr CHR ''<'', Opt (chr CHR ''/''), Cls is_alpha, LazyStar any_char, chr CHR ''>'']"

definition FULL_HTML_REGEX :: rx where
  "FULL_HTML_REGEX =
     seqs [Star any_char, chr CHR ''<'', Cls is_alpha, Star any_char, chr CHR ''>'',
           Star any_char, Eoi]"

text \<open>\<^verbatim>\<open>/^\d{10,13}$/\<close>\<close>

definition EPOCH_REGEX :: rx where
  "EPOCH_REGEX = seqs [rep_range 10 13 digit_cls, Eoi]"

text \<open>\<^verbatim>\<open>/^[A-Za-z0-9+/=]{32,}$/\<close> and \<^verbatim>\<open>/^[A-Za-z0-9_-]{32,}=*$/\<close>\<close>

definition BASE64_REGEX :: rx where
  "BASE64_REGEX = seqs [at_least 32 (Cls is_b64), Eoi]"

definition BASE64_URL_SAFE_REGEX :: rx where
  "BASE64_URL_SAFE_REGEX = seqs [at_least 32 (Cls is_b64url), Star (chr CHR ''=''), Eoi]"

text \<open>\<^verbatim>\<open>/%[0-9A-Fa-f]{2}/\<close>\<close>

definition URL_ENCODED_REGEX :: rx where
  "URL_ENCODED_REGEX = seqs [chr CHR ''%'', rep 2 hex_cls]"

text \<open>\<^verbatim>\<open>/^[A-Za-z0-9_-]+\.[A-Za-z0-9_-]+\.[A-Za-z0-9_-]*$/\<close>\<close>

definition JWT_REGEX :: rx where
  "JWT_REGEX =
     seqs [Plus (Cls is_b64url), chr CHR ''.'', Plus (Cls is_b64url), chr CHR ''.'',
           Star (Cls is_b64url), Eoi]"

text \<open>\<^verbatim>\<open>/^[0-9a-f]{8}-[0-9a-f]{4}-[0-9a-f]{4}-[0-9a-f]{4}-[0-9a-f]{12}$/i\<close>\<close>

definition UUID_REGEX :: rx where
  "UUID_REGEX =
     seqs [rep 8 hex_cls, chr CHR ''-'', rep 4 hex_cls, chr CHR ''-'', rep 4 hex_cls,
           chr CHR ''-'', rep 4 hex_cls, chr CHR ''-'', rep 12 hex_cls, Eoi]"

text \<open>\<^verbatim>\<open>/^0x[0-9A-Fa-f]+$/\<close>, \<^verbatim>\<open>/^0b[01]+$/\<close> and \<^verbatim>\<open>/^0o[0-7]+$/\<close>\<close>

definition HEX_NUMBER_REGEX :: rx where
  "HEX_NUMBER_REGEX = seqs [lit ''0x'', Plus hex_cls, Eoi]"

definition BINARY_REGEX :: rx where
  "BINARY_REGEX = seqs [lit ''0b'', Plus (one_of ''01''), Eoi]"

definition OCTAL_REGEX :: rx where
  "OCTAL_REGEX = seqs [lit ''0o'', Plus (Cls (\<lambda>c. 48 \<le> c \<and> c \<le> 55)), Eoi]"

text \<open>\<^verbatim>\<open>/^[^\n]{200,}.*[;{}()].*$/\<close> and \<^verbatim>\<open>/^[^\n]{200,}.*[{}:;].*$/\<close>\<close>

definition MINIFIED_JS_REGEX :: rx where
  "MINIFIED_JS_REGEX =
     seqs [at_least 200 (Cls (\<lambda>c. c \<noteq> 10)), Star dot_cls, one_of '';{}()'', Star dot_cls, Eoi]"

definition MINIFIED_CSS_REGEX :: rx where
  "MINIFIED_CSS_REGEX =
     seqs [at_least 200 (Cls (\<lambda>c. c \<noteq> 10)), Star dot_cls, one_of ''{}:;'', Star dot_cls, Eoi]"

subsection \<open>The detectors\<close>

type_synonym detector = "jsstring \<Rightarrow> exn + DetectionResult option"

text \<open>\<^verbatim>\<open>part.replace(/-/g, '+').replace(/_/g, '/')\<close>\<close>

definition from_url_safe :: "jsstring \<Rightarrow> jsstring" where
  "from_url_safe s = replace_char (cu CHR ''_'') (cu CHR ''/'') (replace_char (cu CHR ''-'') (cu CHR ''+'') s)"

definition detectJwt :: detector where
  "detectJwt input =
     (let trimmed = trim input in
      if \<not> rx_test_anchored JWT_REGEX trimmed then Inr None
      else try_catch
        (case split_on (cu CHR ''.'') trimmed of
           [p0, p1, p2] \<Rightarrow>
             bind (atob (from_url_safe p0)) (\<lambda>h.
             bind (JSON_parse h) (\<lambda>header.
             bind (atob (from_url_safe p1)) (\<lambda>p.
             bind (JSON_parse p) (\<lambda>payload.
             bind (get_prop header (js ''alg'')) (\<lambda>alg.
             bind (if truthy alg then Inr True
                   else bind (get_prop header (js ''typ'')) (\<lambda>typ. Inr (truthy typ))) (\<lambda>ok.
             Inr (if ok
                  then Some \<lparr>type = TJwt, confidence = 1, raw = input,
                             parsed = Some (ParsedJwt header payload p2)\<rparr>
                  else None)))))))
         | _ \<Rightarrow> Inr None)
        (\<lambda>e. Inr None))"

definition detectUuid :: detector where
  "detectUuid input =
     (let trimmed = trim input in
      if rx_test_anchored UUID_REGEX trimmed
      then Inr (Some \<lparr>type = TUuid, confidence = 1, raw = input, parsed = None\<rparr>)
      else Inr None)"

text \<open>
  A decoded character counts as printable when its code is 32 to 126, or 10, 13 or 9. The test
  \<^verbatim>\<open>printable / decoded.length > 0.8\<close> on two counts is the comparison \<open>4 * length < 5 * printable\<close>
  of integers (for an empty string the quotient is NaN and the test fails).
\<close>

definition is_printable :: "nat \<Rightarrow> bool" where
  "is_printable code = ((32 \<le> code \<and> code \<le> 126) \<or> code = 10 \<or> code = 13 \<or> code = 9)"

definition detectBase64 :: detector where
  "detectBase64 input =
     (let trimmed = trim input in
      if length trimmed < 32 then Inr None
      else if \<not> rx_test_anchored BASE64_REGEX trimmed
              \<and> \<not> rx_test_anchored BASE64_URL_SAFE_REGEX trimmed then Inr None
      else try_catch
        (bind (atob (from_url_safe trimmed)) (\<lambda>decoded.
           let printable = length (filter is_printable decoded)
           in if 4 * length decoded < 5 * printable
              then Inr (Some \<lparr>type = TBase64, confidence = 17 / 20, raw = input,
                               parsed = Some (ParsedString decoded)\<rparr>)
              else Inr None))
        (\<lambda>e. Inr None))"

definition detectUrlEncoded :: detector where
  "detectUrlEncoded input =
     (let trimmed = trim input in
      if \<not> rx_test URL_ENCODED_REGEX trimmed then Inr None
      else
        let percentCount = length (filter (\<lambda>c. c = cu CHR ''%'') trimmed) in
        if percentCount < 2 then Inr None
        else try_catch
          (bind (decodeURIComponent trimmed) (\<lambda>decoded.
             if decoded \<noteq> trimmed
             then Inr (Some \<lparr>type = TUrl, confidence = 9 / 10, raw = input,
                              parsed = Some (ParsedString decoded)\<rparr>)
             else Inr None))
          (\<lambda>e. Inr None))"

definition detectNumber :: detector where
  "detectNumber input =
     (let trimmed = trim input in
      if rx_test_anchored HEX_NUMBER_REGEX trimmed
      then Inr (Some \<lparr>type = TNumber, confidence = 1, raw = input,
                       parsed = Some (ParsedNumber 16 (num_of (parseInt trimmed 16)))\<rparr>)
      else if rx_test_anchored BINARY_REGEX trimmed
      then Inr (Some \<lparr>type = TNumber, confidence = 1, raw = input,
                       parsed = Some (ParsedNumber 2 (num_of (parseInt (drop 2 trimmed) 2)))\<rparr>)
      else if rx_test_anchored OCTAL_REGEX trimmed
      then Inr (Some \<lparr>type = TNumber, confidence = 1, raw = input,
                       parsed = Some (ParsedNumber 8 (num_of (parseInt (drop 2 trimmed) 8)))\<rparr>)
      else Inr None)"

definition detectJson :: detector where
  "detectJson input =
     (let trimmed = trim input in
      if take 1 trimmed \<noteq> js ''{'' \<and> take 1 trimmed \<noteq> js ''['' then Inr None
      else try_catch
        (bind (JSON_parse trimmed) (\<lambda>v.
           Inr (Some \<lparr>type = TJson, confidence = 1, raw = input, parsed = Some (ParsedJson v)\<rparr>)))
        (\<lambda>e. Inr None))"

definition detectColor :: detector where
  "detectColor input =
     (let trimmed = trim input in
      if rx_test_anchored HEX_COLOR_REGEX trimmed
      then Inr (Some \<lparr>type = TColor, confidence = 1, raw = input, parsed = None\<rparr>)
      else if rx_test_anchored RGB_COLOR_REGEX trimmed
      then Inr (Some \<lparr>type = TColor, confidence = 1, raw = input, parsed = None\<rparr>)
      else if rx_test_anchored HSL_COLOR_REGEX trimmed
      then Inr (Some \<lparr>type = TColor, confidence = 1, raw = input, parsed = None\<rparr>)
      else Inr None)"

text \<open>A comparison with NaN is false, so a number that did not parse is in no range.\<close>

definition detectTimestamp :: detector where
  "detectTimestamp input =
     (let trimmed = trim input in
      if rx_test_anchored EPOCH_REGEX trimmed then
        (case parseInt trimmed 10 of
           None \<Rightarrow> Inr None
         | Some num \<Rightarrow>
             let isSeconds = (length trimmed = 10 \<and> 0 \<le> num \<and> num \<le> 4102444800);
                 isMillis = (length trimmed = 13 \<and> 0 \<le> num \<and> num \<le> 4102444800000)
             in if isSeconds \<or> isMillis
                then Inr (Some \<lparr>type = TTimestamp, confidence = 9 / 10, raw = input,
                                 parsed = Some (ParsedEpoch (if isMillis then num else num * 1000))\<rparr>)
                else Inr None)
      else Inr None)"

definition detectHtml :: detector where
  "detectHtml input =
     (let trimmed = trim input in
      if \<not> rx_test HTML_TAG_REGEX trimmed then Inr None
      else
        let hasDoctype = rx_test (lit_ci ''<!doctype'') trimmed;
            hasHtmlTag = rx_test (lit_ci ''<html'') trimmed;
            hasBodyTag = rx_test (lit_ci ''<body'') trimmed;
            hasDivTag = rx_test (lit_ci ''<div'') trimmed;
            hasParagraph = rx_test (seqs [lit_ci ''<p'', Cls (\<lambda>c. is_ws c \<or> c = cu CHR ''>'')]) trimmed;
            hasSpan = rx_test (lit_ci ''<span'') trimmed;
            hasHeading = rx_test (seqs [lit_ci ''<h'', Cls (\<lambda>c. 49 \<le> c \<and> c \<le> 54)]) trimmed;
            indicators = [hasDoctype, hasHtmlTag, hasBodyTag, hasDivTag, hasParagraph, hasSpan,
                          hasHeading];
            score = length (filter id indicators)
        in if 0 < score \<or> rx_test_anchored FULL_HTML_REGEX trimmed
           then Inr (Some \<lparr>type = THtml, confidence = min (1 / 2 + of_nat score * (1 / 10)) 1,
                            raw = input, parsed = None\<rparr>)
           else Inr None)"

definition detectCss :: detector where
  "detectCss input =
     (let trimmed = trim input;
          hasCssSelectors =
            rx_test (seqs [Opt (one_of ''.#''), Plus (Cls (\<lambda>c. is_alpha c \<or> c = 95 \<or> c = 45)),
                           Star ws_cls, chr CHR ''{'']) trimmed;
          hasCssProperties =
            rx_test (seqs [chr CHR '':'', Star ws_cls, Plus (none_of '';''), chr CHR '';'']) trimmed;
          isMinified = (rx_test_anchored MINIFIED_CSS_REGEX trimmed \<and> 10 \<notin> set trimmed)
      in if hasCssSelectors \<and> hasCssProperties
         then Inr (Some \<lparr>type = TCss, confidence = (if isMinified then 9 / 10 else 7 / 10),
                          raw = input, parsed = None\<rparr>)
         else Inr None)"

definition detectJavaScript :: detector where
  "detectJavaScript input =
     (let trimmed = trim input;
          hasFunction =
            rx_test (alts [seqs [lit ''function'', Star ws_cls, Star (Cls is_word), Star ws_cls,
                                 chr CHR ''(''],
                           seqs [lit ''=>'', Star ws_cls, chr CHR ''{''],
                           seqs [lit ''const'', Plus ws_cls],
                           seqs [lit ''let'', Plus ws_cls],
                           seqs [lit ''var'', Plus ws_cls]]) trimmed;
          hasJsPatterns =
            rx_test (alts [seqs [chr CHR '')'', Star ws_cls, chr CHR ''{''],
                           seqs [chr CHR ''}'', Star ws_cls, chr CHR '')''],
                           seqs [lit ''return'', Plus ws_cls],
                           seqs [lit ''if'', Star ws_cls, chr CHR ''(''],
                           seqs [lit ''for'', Star ws_cls, chr CHR ''('']]) trimmed;
          isMinified = (rx_test_anchored MINIFIED_JS_REGEX trimmed \<and> 10 \<notin> set trimmed)
      in if (hasFunction \<or> hasJsPatterns) \<and> isMinified
         then Inr (Some \<lparr>type = TJavascript, confidence = 4 / 5, raw = input, parsed = None\<rparr>)
         else Inr None)"

definition detectText :: "jsstring \<Rightarrow> DetectionResult" where
  "detectText input = \<lparr>type = TText, confidence = 1 / 2, raw = input, parsed = None\<rparr>"

subsection \<open>detect\<close>

text \<open>
  The argument of \<^verbatim>\<open>detect\<close> is declared a string; the function tests for anything else
  first. \<open>NonString\<close> stands for any other JavaScript value.
\<close>

datatype js_arg = Str jsstring | NonString

definition detectors :: "detector list" where
  "detectors = [detectJwt, detectUuid, detectJson, detectColor, detectTimestamp, detectNumber,
                detectUrlEncoded, detectBase64, detectHtml, detectCss, detectJavaScript]"

text \<open>The loop over the detectors: the first result that is not null is returned.\<close>

fun first_result :: "detector list \<Rightarrow> jsstring \<Rightarrow> exn + DetectionResult option" where
  "first_result [] input = Inr None"
| "first_result (d # ds) input =
     (case d input of
        Inl e \<Rightarrow> Inl e
      | Inr (Some result) \<Rightarrow> Inr (Some result)
      | Inr None \<Rightarrow> first_result ds input)"

definition detect :: "js_arg \<Rightarrow> exn + DetectionResult" where
  "detect arg = (case arg of
       NonString \<Rightarrow> Inr (detectText [])
     | Str input \<Rightarrow>
         if input = [] then Inr (detectText [])
         else (case first_result detectors input of
                 Inl e \<Rightarrow> Inl e
               | Inr (Some result) \<Rightarrow> Inr result
               | Inr None \<Rightarrow> Inr (detectText input)))"

section \<open>The color transformers\<close>

text \<open>
  The records \<^verbatim>\<open>ColorRGB\<close>, \<^verbatim>\<open>ColorHSL\<close> and \<^verbatim>\<open>ColorFormats\<close>; their fields carry a prefix,
  since the source's field names \<^verbatim>\<open>r\<close>, \<^verbatim>\<open>a\<close>, \<^verbatim>\<open>rgb\<close> would take these names from every
  variable.
\<close>

record ColorRGB =
  rgb_r :: jsnum
  rgb_g :: jsnum
  rgb_b :: jsnum
  rgb_a :: jsnum

record ColorHSL =
  hsl_h :: jsnum
  hsl_s :: jsnum
  hsl_l :: jsnum
  hsl_a :: jsnum

record ColorFormats =
  fmt_hex :: jsstring
  fmt_hex8 :: jsstring
  fmt_rgb :: jsstring
  fmt_rgba :: jsstring
  fmt_hsl :: jsstring
  fmt_hsla :: jsstring
  fmt_tailwind :: jsstring
  fmt_complementary :: jsstring
  fmt_original :: ColorRGB

definition hue2rgb :: "jsnum \<Rightarrow> jsnum \<Rightarrow> jsnum \<Rightarrow> jsnum" where
  "hue2rgb p q t0 =
     (let t1 = (if t0 < Fin 0 then t0 + Fin 1 else t0);
          t = (if Fin 1 < t1 then t1 - Fin 1 else t1)
      in if t < Fin 1 / Fin 6 then p + (q - p) * Fin 6 * t
         else if t < Fin 1 / Fin 2 then q
         else if t < Fin 2 / Fin 3 then p + (q - p) * (Fin 2 / Fin 3 - t) * Fin 6
         else p)"

definition hslToRgb :: "ColorHSL \<Rightarrow> ColorRGB" where
  "hslToRgb hsl =
     (let h = hsl_h hsl / Fin 360;
          s = hsl_s hsl / Fin 100;
          l = hsl_l hsl / Fin 100;
          (r, g, b) =
            (if strict_eq s (Fin 0) then (l, l, l)
             else
               let q = (if l < Fin (1 / 2) then l * (Fin 1 + s) else l + s - l * s);
                   p = Fin 2 * l - q
               in (hue2rgb p q (h + Fin 1 / Fin 3), hue2rgb p q h, hue2rgb p q (h - Fin 1 / Fin 3)))
      in \<lparr>rgb_r = js_round (r * Fin 255), rgb_g = js_round (g * Fin 255),
          rgb_b = js_round (b * Fin 255), rgb_a = hsl_a hsl\<rparr>)"

definition rgbToHsl :: "ColorRGB \<Rightarrow> ColorHSL" where
  "rgbToHsl rgb =
     (let r = rgb_r rgb / Fin 255;
          g = rgb_g rgb / Fin 255;
          b = rgb_b rgb / Fin 255;
          mx = js_max (js_max r g) b;
          mn = js_min (js_min r g) b;
          l = (mx + mn) / Fin 2;
          (h, s) =
            (if strict_neq mx mn then
               let d = mx - mn;
                   s = (if Fin (1 / 2) < l then d / (Fin 2 - mx - mn) else d / (mx + mn));
                   h = (if strict_eq mx r then ((g - b) / d + (if g < b then Fin 6 else Fin 0)) / Fin 6
                        else if strict_eq mx g then ((b - r) / d + Fin 2) / Fin 6
                        else if strict_eq mx b then ((r - g) / d + Fin 4) / Fin 6
                        else Fin 0)
               in (h, s)
             else (Fin 0, Fin 0))
      in \<lparr>hsl_h = js_round (h * Fin 360), hsl_s = js_round (s * Fin 100),
          hsl_l = js_round (l * Fin 100), hsl_a = rgb_a rgb\<rparr>)"

text \<open>The patterns of \<^verbatim>\<open>parseColor\<close>:
  \<^verbatim>\<open>/^#([A-Fa-f0-9]{3,8})$/\<close>,
  \<^verbatim>\<open>/^rgba?\s*\(\s*(\d{1,3})\s*,\s*(\d{1,3})\s*,\s*(\d{1,3})\s*(?:,\s*([\d.]+))?\s*\)$/i\<close> and
  \<^verbatim>\<open>/^hsla?\s*\(\s*(\d{1,3})\s*,\s*(\d{1,3})%?\s*,\s*(\d{1,3})%?\s*(?:,\s*([\d.]+))?\s*\)$/i\<close>.
\<close>

definition PARSE_HEX_REGEX :: rx where
  "PARSE_HEX_REGEX = seqs [chr CHR ''#'', Grp 1 (rep_range 3 8 hex_cls), Eoi]"

definition PARSE_RGB_REGEX :: rx where
  "PARSE_RGB_REGEX =
     seqs [lit_ci ''rgb'', Opt (chr_ci CHR ''a''), Star ws_cls, chr CHR ''('', Star ws_cls,
           Grp 1 (rep_range 1 3 digit_cls), Star ws_cls, chr CHR '','', Star ws_cls,
           Grp 2 (rep_range 1 3 digit_cls), Star ws_cls, chr CHR '','', Star ws_cls,
           Grp 3 (rep_range 1 3 digit_cls), Star ws_cls,
           Opt (seqs [chr CHR '','', Star ws_cls, Grp 4 (Plus (Cls (\<lambda>c. is_digit c \<or> c = 46)))]),
           Star ws_cls, chr CHR '')'', Eoi]"

definition PARSE_HSL_REGEX :: rx where
  "PARSE_HSL_REGEX =
     seqs [lit_ci ''hsl'', Opt (chr_ci CHR ''a''), Star ws_cls, chr CHR ''('', Star ws_cls,
           Grp 1 (rep_range 1 3 digit_cls), Star ws_cls, chr CHR '','', Star ws_cls,
           Grp 2 (rep_range 1 3 digit_cls), Opt (chr CHR ''%''), Star ws_cls, chr CHR '','',
           Star ws_cls,
           Grp 3 (rep_range 1 3 digit_cls), Opt (chr CHR ''%''), Star ws_cls,
           Opt (seqs [chr CHR '','', Star ws_cls, Grp 4 (Plus (Cls (\<lambda>c. is_digit c \<or> c = 46)))]),
           Star ws_cls, chr CHR '')'', Eoi]"

text \<open>\<^verbatim>\<open>s.slice(i, j)\<close> for \<open>0 \<le> i \<le> j\<close>.\<close>

definition slice :: "nat \<Rightarrow> nat \<Rightarrow> jsstring \<Rightarrow> jsstring" where
  "slice i j s = take (j - i) (drop i s)"

text \<open>\<^verbatim>\<open>parseInt(m[i], 10)\<close>; a group that took no part is \<^verbatim>\<open>undefined\<close> and parses to NaN.\<close>

definition parseInt_group :: "captures \<Rightarrow> nat \<Rightarrow> jsnum" where
  "parseInt_group m i = (case group m i of None \<Rightarrow> NaN | Some g \<Rightarrow> num_of (parseInt g 10))"

text \<open>\<^verbatim>\<open>m[4] ? parseFloat(m[4]) : 1\<close>\<close>

definition alpha_group :: "captures \<Rightarrow> jsnum" where
  "alpha_group m = (case group m 4 of
       None \<Rightarrow> Fin 1
     | Some g \<Rightarrow> if g = [] then Fin 1 else parseFloat g)"

text \<open>Reading \<^verbatim>\<open>.length\<close> of a group that is \<^verbatim>\<open>undefined\<close> would throw.\<close>

definition parseColor :: "jsstring \<Rightarrow> exn + ColorRGB option" where
  "parseColor input =
     (let trimmed = trim input in
      case rx_match_anchored PARSE_HEX_REGEX trimmed of
        Some hexMatch \<Rightarrow>
          (case group hexMatch 1 of
             None \<Rightarrow> Inl TypeError
           | Some hex \<Rightarrow>
               if length hex = 3 then
                 Inr (Some \<lparr>rgb_r = num_of (parseInt [hex ! 0, hex ! 0] 16),
                             rgb_g = num_of (parseInt [hex ! 1, hex ! 1] 16),
                             rgb_b = num_of (parseInt [hex ! 2, hex ! 2] 16),
                             rgb_a = Fin 1\<rparr>)
               else if length hex = 6 then
                 Inr (Some \<lparr>rgb_r = num_of (parseInt (slice 0 2 hex) 16),
                             rgb_g = num_of (parseInt (slice 2 4 hex) 16),
                             rgb_b = num_of (parseInt (slice 4 6 hex) 16),
                             rgb_a = Fin 1\<rparr>)
               else if length hex = 8 then
                 Inr (Some \<lparr>rgb_r = num_of (parseInt (slice 0 2 hex) 16),
                             rgb_g = num_of (parseInt (slice 2 4 hex) 16),
                             rgb_b = num_of (parseInt (slice 4 6 hex) 16),
                             rgb_a = num_of (parseInt (slice 6 8 hex) 16) / Fin 255\<rparr>)
               else Inr None)
      | None \<Rightarrow>
          (case rx_match_anchored PARSE_RGB_REGEX trimmed of
             Some rgbMatch \<Rightarrow>
               Inr (Some \<lparr>rgb_r = parseInt_group rgbMatch 1, rgb_g = parseInt_group rgbMatch 2,
                           rgb_b = parseInt_group rgbMatch 3, rgb_a = alpha_group rgbMatch\<rparr>)
           | None \<Rightarrow>
               (case rx_match_anchored PARSE_HSL_REGEX trimmed of
                  Some hslMatch \<Rightarrow>
                    Inr (Some (hslToRgb
                      \<lparr>hsl_h = parseInt_group hslMatch 1, hsl_s = parseInt_group hslMatch 2,
                       hsl_l = parseInt_group hslMatch 3, hsl_a = alpha_group hslMatch\<rparr>))
                | None \<Rightarrow> Inr None)))"

text \<open>
  \<^verbatim>\<open>x.toString(R)\<close> and the conversion of a number in a template literal (\<open>R = 10\<close>). An
  integer below \<open>10^21\<close> is written with its digits. For any other finite number the digits
  are those of the nearest double, which are not modelled: \<open>host R q\<close> stands for them.
\<close>

definition digit_char :: "nat \<Rightarrow> nat" where
  "digit_char d = (if d < 10 then 48 + d else 87 + d)"

function nat_digits :: "nat \<Rightarrow> nat \<Rightarrow> jsstring" where
  "nat_digits R n = (if n < R \<or> R < 2 then [digit_char n]
                     else nat_digits R (n div R) @ [digit_char (n mod R)])"
  by pat_completeness auto
termination
  by (relation "measure snd") auto

declare nat_digits.simps [simp del]

definition int_toString :: "nat \<Rightarrow> int \<Rightarrow> jsstring" where
  "int_toString R i = (if i < 0 then 45 # nat_digits R (nat (- i)) else nat_digits R (nat i))"

definition number_toString :: "(nat \<Rightarrow> rat \<Rightarrow> jsstring) \<Rightarrow> nat \<Rightarrow> jsnum \<Rightarrow> jsstring" where
  "number_toString host R x = (case x of
       NaN \<Rightarrow> js ''NaN''
     | PInf \<Rightarrow> js ''Infinity''
     | NInf \<Rightarrow> js ''-Infinity''
     | Fin q \<Rightarrow> if of_int \<lfloor>q\<rfloor> = q \<and> \<bar>q\<bar> < 10 ^ 21 then int_toString R \<lfloor>q\<rfloor> else host R q)"

text \<open>\<^verbatim>\<open>s.padStart(2, '0')\<close>\<close>

definition padStart2 :: "jsstring \<Rightarrow> jsstring" where
  "padStart2 s = replicate (2 - length s) 48 @ s"

definition tailwindColors :: "(string \<times> int \<times> int \<times> int) list" where
  "tailwindColors =
     [(''slate-50'', 248, 250, 252), (''slate-100'', 241, 245, 249), (''slate-200'', 226, 232, 240),
      (''slate-300'', 203, 213, 225), (''slate-400'', 148, 163, 184), (''slate-500'', 100, 116, 139),
      (''slate-600'', 71, 85, 105), (''slate-700'', 51, 65, 85), (''slate-800'', 30, 41, 59),
      (''slate-900'', 15, 23, 42), (''slate-950'', 2, 6, 23), (''red-500'', 239, 68, 68),
      (''orange-500'', 249, 115, 22), (''amber-400'', 251, 191, 36), (''amber-500'', 245, 158, 11),
      (''yellow-500'', 234, 179, 8), (''lime-500'', 132, 204, 22), (''green-500'', 34, 197, 94),
      (''emerald-500'', 16, 185, 129), (''teal-500'', 20, 184, 166), (''cyan-500'', 6, 182, 212),
      (''sky-500'', 14, 165, 233), (''blue-500'', 59, 130, 246), (''indigo-500'', 99, 102, 241),
      (''violet-500'', 139, 92, 246), (''purple-500'', 168, 85, 247), (''fuchsia-500'', 217, 70, 239),
      (''pink-500'', 236, 72, 153), (''rose-500'', 244, 63, 94), (''white'', 255, 255, 255),
      (''black'', 0, 0, 0)]"

text \<open>
  The loop keeps the nearest entry so far. The source compares the distances, the model
  their squares: the square root is monotone, and it maps an infinity and NaN to themselves.
\<close>

definition findTailwindColor :: "ColorRGB \<Rightarrow> jsstring" where
  "findTailwindColor rgb =
     (let step = (\<lambda>(closest, minDistance) (name, r, g, b).
            let dr = rgb_r rgb - Fin (of_int r);
                dg = rgb_g rgb - Fin (of_int g);
                db = rgb_b rgb - Fin (of_int b);
                distance = dr * dr + dg * dg + db * db
            in if distance < minDistance then (name, distance) else (closest, minDistance));
          (closest, minDistance) = foldl step (''slate-500'', PInf) tailwindColors
      in js ''bg-'' @ js closest)"

definition hex_pair :: "(nat \<Rightarrow> rat \<Rightarrow> jsstring) \<Rightarrow> jsnum \<Rightarrow> jsstring" where
  "hex_pair host x = padStart2 (number_toString host 16 x)"

definition getComplementary :: "(nat \<Rightarrow> rat \<Rightarrow> jsstring) \<Rightarrow> ColorRGB \<Rightarrow> jsstring" where
  "getComplementary host rgb =
     js ''#'' @ hex_pair host (Fin 255 - rgb_r rgb) @ hex_pair host (Fin 255 - rgb_g rgb)
       @ hex_pair host (Fin 255 - rgb_b rgb)"

definition colorToFormats :: "(nat \<Rightarrow> rat \<Rightarrow> jsstring) \<Rightarrow> jsstring \<Rightarrow> exn + ColorFormats option" where
  "colorToFormats host input =
     bind (parseColor input) (\<lambda>parsed_rgb.
       case parsed_rgb of
         None \<Rightarrow> Inr None
       | Some rgb \<Rightarrow>
           let hsl = rgbToHsl rgb;
               dec = number_toString host 10;
               hex6 = js ''#'' @ hex_pair host (rgb_r rgb) @ hex_pair host (rgb_g rgb)
                        @ hex_pair host (rgb_b rgb);
               hex8 = hex6 @ hex_pair host (js_round (rgb_a rgb * Fin 255))
           in Inr (Some
                \<lparr>fmt_hex = hex6,
                 fmt_hex8 = hex8,
                 fmt_rgb = js ''rgb('' @ dec (rgb_r rgb) @ js '', '' @ dec (rgb_g rgb) @ js '', ''
                             @ dec (rgb_b rgb) @ js '')'',
                 fmt_rgba = js ''rgba('' @ dec (rgb_r rgb) @ js '', '' @ dec (rgb_g rgb) @ js '', ''
                              @ dec (rgb_b rgb) @ js '', '' @ dec (rgb_a rgb) @ js '')'',
                 fmt_hsl = js ''hsl('' @ dec (hsl_h hsl) @ js '', '' @ dec (hsl_s hsl) @ js ''%, ''
                             @ dec (hsl_l hsl) @ js ''%)'',
                 fmt_hsla = js ''hsla('' @ dec (hsl_h hsl) @ js '', '' @ dec (hsl_s hsl) @ js ''%, ''
                              @ dec (hsl_l hsl) @ js ''%, '' @ dec (hsl_a hsl) @ js '')'',
                 fmt_tailwind = findTailwindColor rgb,
                 fmt_complementary = getComplementary host rgb,
                 fmt_original = rgb\<rparr>))"

section \<open>The text transformers\<close>

text \<open>
  The rest of the input after the match that the matcher finds first at the start of \<open>s\<close>.
\<close>

definition rx_first :: "rx \<Rightarrow> jsstring \<Rightarrow> jsstring option" where
  "rx_first r s = (case rx_run r [] s of [] \<Rightarrow> None | (caps, s') # _ \<Rightarrow> Some s')"

text \<open>
  \<^verbatim>\<open>s.match(/r/g) || []\<close>: the matches from left to right. After an empty match the search
  moves on by one character.
\<close>

function match_all :: "rx \<Rightarrow> jsstring \<Rightarrow> jsstring list" where
  "match_all r s =
     (case rx_first r s of
        None \<Rightarrow> (case s of [] \<Rightarrow> [] | c # cs \<Rightarrow> match_all r cs)
      | Some s' \<Rightarrow>
          if length s' < length s then take (length s - length s') s # match_all r s'
          else [] # (case s of [] \<Rightarrow> [] | c # cs \<Rightarrow> match_all r cs))"
  by pat_completeness auto
termination
  by (relation "measure (\<lambda>(r, s). length s)") auto

declare match_all.simps [simp del]

text \<open>\<^verbatim>\<open>s.replace(/r/g, repl)\<close> for a replacement without \<^verbatim>\<open>$\<close> patterns.\<close>

function replace_all :: "rx \<Rightarrow> jsstring \<Rightarrow> jsstring \<Rightarrow> jsstring" where
  "replace_all r repl s =
     (case rx_first r s of
        None \<Rightarrow> (case s of [] \<Rightarrow> [] | c # cs \<Rightarrow> c # replace_all r repl cs)
      | Some s' \<Rightarrow>
          if length s' < length s then repl @ replace_all r repl s'
          else repl @ (case s of [] \<Rightarrow> [] | c # cs \<Rightarrow> c # replace_all r repl cs))"
  by pat_completeness auto
termination
  by (relation "measure (\<lambda>(r, repl, s). length s)") auto

declare replace_all.simps [simp del]

text \<open>
  \<^verbatim>\<open>s.split(/r/)\<close> for a pattern without capture groups. \<open>piece\<close> holds the characters of
  the piece being read, \<open>s\<close> the input from the position where a separator is tried next; a
  separator that is empty and stands at the start of the piece is passed over.
\<close>

function split_loop :: "rx \<Rightarrow> jsstring \<Rightarrow> jsstring \<Rightarrow> jsstring list" where
  "split_loop r piece s =
     (case s of
        [] \<Rightarrow> [piece]
      | c # cs \<Rightarrow>
          (case rx_first r s of
             None \<Rightarrow> split_loop r (piece @ [c]) cs
           | Some s' \<Rightarrow>
               if length s' < length s then piece # split_loop r [] s'
               else if piece = [] then split_loop r [c] cs
               else piece # split_loop r [] s))"
  by pat_completeness auto
termination
  by (relation "measures [\<lambda>(r, piece, s). length s, \<lambda>(r, piece, s). length piece]") auto

declare split_loop.simps [simp del]

definition split_rx :: "rx \<Rightarrow> jsstring \<Rightarrow> jsstring list" where
  "split_rx r s = (if s = [] then (if rx_first r [] = None then [[]] else [])
                   else split_loop r [] s)"

record TextStats =
  characters :: nat
  charactersNoSpaces :: nat
  words :: nat
  lines :: nat
  sentences :: nat

text \<open>
  \<^verbatim>\<open>input || ''\<close> is the input itself for a string; a count that is zero is false in
  \<^verbatim>\<open>a || b\<close>.
\<close>

definition textStats :: "jsstring \<Rightarrow> TextStats" where
  "textStats input =
     (let text = (if input = [] then [] else input)
      in \<lparr>characters = length text,
          charactersNoSpaces = length (replace_all ws_cls [] text),
          words = (if trim text \<noteq> [] then length (split_rx (Plus ws_cls) (trim text)) else 0),
          lines = length (split_rx (seqs [Opt (Cls (\<lambda>c. c = 13)), Cls (\<lambda>c. c = 10)]) text),
          sentences =
            (let n = length (match_all (Plus (one_of ''.!?'')) text)
             in if n \<noteq> 0 then n else if trim text \<noteq> [] then 1 else 0)\<rparr>)"

section \<open>Numbers and strings of parsed values\<close>








section \<open>The JWT transformer\<close>





section \<open>The claims in the words of the specification\<close>

text \<open>
  The specification's description of a timestamp: a string of 10 digits read as seconds, or of
  13 digits read as milliseconds, whose value is at most 4102444800 seconds; its epoch in
  milliseconds.
\<close>

definition spec_timestamp :: "jsstring \<Rightarrow> int option" where
  "spec_timestamp t =
     (if list_all is_digit t \<and> length t = 10 \<and> int (digits_value 10 t) \<le> 4102444800
      then Some (int (digits_value 10 t) * 1000)
      else if list_all is_digit t \<and> length t = 13
              \<and> int (digits_value 10 t) \<le> 4102444800 * 1000
      then Some (int (digits_value 10 t))
      else None)"

text \<open>
  A literal escape sequence \<^verbatim>\<open>%XX\<close> starts at a position when a percent sign and two
  hexadecimal digits stand there; a percent sign that starts none is stray.
\<close>

definition starts_escape :: "jsstring \<Rightarrow> bool" where
  "starts_escape t = (case t of [] \<Rightarrow> False | c # r \<Rightarrow> c = 37 \<and> hex_octet r \<noteq> None)"

definition count_escapes :: "jsstring \<Rightarrow> nat" where
  "count_escapes s = length (filter starts_escape (suffixes_of s))"

definition stray_percent :: "jsstring \<Rightarrow> bool" where
  "stray_percent t = (case t of [] \<Rightarrow> False | c # r \<Rightarrow> c = 37 \<and> hex_octet r = None)"

definition has_stray_percent :: "jsstring \<Rightarrow> bool" where
  "has_stray_percent s = list_ex stray_percent (suffixes_of s)"

text \<open>
  The specification's description of base64 input: at least 32 characters of the base64 or
  of the URL-safe class, which decode, to characters of which at least 80% are printable.
\<close>

definition base64_shape :: "jsstring \<Rightarrow> bool" where
  "base64_shape t = (rx_test_anchored BASE64_REGEX t \<or> rx_test_anchored BASE64_URL_SAFE_REGEX t)"

definition spec_base64 :: "jsstring \<Rightarrow> bool" where
  "spec_base64 t =
     (32 \<le> length t \<and> base64_shape t
      \<and> (case atob (from_url_safe t) of
            Inl e \<Rightarrow> False
          | Inr d \<Rightarrow> 4 * length d \<le> 5 * length (filter is_printable d)))"

text \<open>
  The specification's round trip: each channel of the color that comes back from HSL is a
  number within \<open>k\<close> of the channel that went in.
\<close>

definition channel_close :: "rat \<Rightarrow> jsnum \<Rightarrow> jsnum \<Rightarrow> bool" where
  "channel_close k x y = (case (x, y) of (Fin p, Fin q) \<Rightarrow> \<bar>p - q\<bar> \<le> k | _ \<Rightarrow> False)"

definition roundtrip_within :: "rat \<Rightarrow> ColorRGB \<Rightarrow> bool" where
  "roundtrip_within k rgb =
     (let out = hslToRgb (rgbToHsl rgb)
      in channel_close k (rgb_r rgb) (rgb_r out) \<and> channel_close k (rgb_g rgb) (rgb_g out)
         \<and> channel_close k (rgb_b rgb) (rgb_b out))"

text \<open>
  The specification's counts. A run of characters with a property ends at a character that
  has it and is followed by none that has it.
\<close>

fun count_runs :: "(nat \<Rightarrow> bool) \<Rightarrow> jsstring \<Rightarrow> nat" where
  "count_runs P [] = 0"
| "count_runs P [c] = (if P c then 1 else 0)"
| "count_runs P (c # d # cs) = (if P c \<and> \<not> P d then 1 else 0) + count_runs P (d # cs)"

definition is_sentence_mark :: "nat \<Rightarrow> bool" where
  "is_sentence_mark c = (c = 46 \<or> c = 33 \<or> c = 63)"

definition claimed_sentences :: "jsstring \<Rightarrow> nat" where
  "claimed_sentences s =
     (if count_runs is_sentence_mark s \<noteq> 0 then count_runs is_sentence_mark s
      else if s \<noteq> [] then 1 else 0)"


section \<open>Functions used in the proofs\<close>

text \<open>Functions that no source function corresponds to; the proofs are stated with them.\<close>

text \<open>The rests of the input after a match, without the captures.\<close>

fun rx_rests :: "rx \<Rightarrow> jsstring \<Rightarrow> jsstring list" where
  "rx_rests Eps s = [s]"
| "rx_rests (Cls P) s = (case s of [] \<Rightarrow> [] | c # cs \<Rightarrow> if P c then [cs] else [])"
| "rx_rests (Seq a b) s = concat (map (rx_rests b) (rx_rests a s))"
| "rx_rests (Alt a b) s = rx_rests a s @ rx_rests b s"
| "rx_rests (Star a) s =
     concat (map (rx_rests (Star a)) (filter (\<lambda>s'. length s' < length s) (rx_rests a s))) @ [s]"
| "rx_rests (LazyStar a) s =
     s # concat (map (rx_rests (LazyStar a)) (filter (\<lambda>s'. length s' < length s) (rx_rests a s)))"
| "rx_rests (Grp i a) s = rx_rests a s"
| "rx_rests Eoi s = (if s = [] then [s] else [])"

declare rx_rests.simps(5) [simp del] rx_rests.simps(6) [simp del]

fun strip_groups :: "rx \<Rightarrow> rx" where
  "strip_groups (Grp i a) = strip_groups a"
| "strip_groups (Seq a b) = Seq (strip_groups a) (strip_groups b)"
| "strip_groups (Alt a b) = Alt (strip_groups a) (strip_groups b)"
| "strip_groups (Star a) = Star (strip_groups a)"
| "strip_groups (LazyStar a) = LazyStar (strip_groups a)"
| "strip_groups r = r"

definition line_break :: rx where
  "line_break = seqs [Opt (Cls (\<lambda>c. c = 13)), Cls (\<lambda>c. c = 10)]"

section \<open>Sample inputs\<close>



definition url_sample :: jsstring where
  "url_sample = js ''hello%20world%21''"

definition stray_sample :: jsstring where
  "stray_sample = js ''100% sure%21''"

definition eighty_percent_sample :: jsstring where
  "eighty_percent_sample = js ''AQIDBAV0d2VudHkgcHJpbnRhYmxlIHR4dA==''"

definition hex_literal_sample :: jsstring where
  "hex_literal_sample = js ''0x00aC00aC00aC00aC00aC00aC00aC00aC00''"

definition base64_sample :: jsstring where
  "base64_sample = js ''SGVsbG8gV29ybGQhIFRoaXMgaXMgYSB0ZXN0IG1lc3NhZ2Uu''"

definition hex_color_sample :: jsstring where
  "hex_color_sample = js ''#FF6B35''"

definition rgb_color_sample :: jsstring where
  "rgb_color_sample = js ''rgb(999, 0, 0)''"


section \<open>Properties of the numbers\<close>

subsection \<open>Rounding\<close>

text \<open>\<open>ilog2\<close> is the integer part of the binary logarithm.\<close>

lemma pow2_bitlen_le: "0 < n \<Longrightarrow> (2::rat) powi (bitlen n - 1) \<le> of_int n"
proof -
  assume n: "0 < n"
  then have "1 \<le> bitlen n" by (simp add: bitlen_alt_def)
  then have "(2::rat) powi (bitlen n - 1) = of_int (2 ^ nat (bitlen n - 1))"
    by (simp add: power_int_def)
  also have "\<dots> \<le> of_int n" using bitlen_bounds[OF n] by (simp only: of_int_le_iff)
  finally show ?thesis .
qed

lemma pow2_bitlen_gt: "0 \<le> n \<Longrightarrow> of_int n < (2::rat) powi (bitlen n)"
proof -
  assume n: "0 \<le> n"
  have "0 \<le> bitlen n" by (rule bitlen_nonneg)
  then have e: "(2::rat) powi (bitlen n) = of_int (2 ^ nat (bitlen n))"
    by (simp add: power_int_def)
  have "n < 2 ^ nat (bitlen n)"
  proof (cases "n = 0")
    case True
    then show ?thesis by simp
  next
    case False
    with n have "0 < n" by simp
    then show ?thesis using bitlen_bounds by simp
  qed
  then show ?thesis unfolding e by (simp only: of_int_less_iff)
qed

lemma ilog2_le:
  assumes "0 < q"
  shows "2 powi (ilog2 q) \<le> q"
proof (cases "1 \<le> q")
  case True
  then have "0 < \<lfloor>q\<rfloor>" by simp
  then have "(2::rat) powi (bitlen \<lfloor>q\<rfloor> - 1) \<le> of_int \<lfloor>q\<rfloor>" by (rule pow2_bitlen_le)
  also have "\<dots> \<le> q" by simp
  finally show ?thesis using True by (simp add: ilog2_def)
next
  case False
  define n where "n = \<lceil>1 / q\<rceil> - 1"
  from False assms have "1 < 1 / q" by simp
  from assms have "of_int 0 < 1 / q" by simp
  then have "0 < \<lceil>1 / q\<rceil>" by (simp only: less_ceiling_iff)
  then have n: "0 \<le> n" unfolding n_def by simp
  have "1 / q \<le> of_int \<lceil>1 / q\<rceil>" by simp
  also have "\<dots> = of_int n + 1" by (simp add: n_def)
  also have "\<dots> \<le> 2 powi (bitlen n)"
  proof -
    have "0 \<le> bitlen n" by (rule bitlen_nonneg)
    then have e: "(2::rat) powi (bitlen n) = of_int (2 ^ nat (bitlen n))"
      by (simp add: power_int_def)
    from pow2_bitlen_gt[OF n] have "of_int n < (of_int (2 ^ nat (bitlen n)) :: rat)"
      unfolding e .
    then have "n < 2 ^ nat (bitlen n)" by (simp only: of_int_less_iff)
    then have "n + 1 \<le> 2 ^ nat (bitlen n)" by simp
    then have "(of_int (n + 1) :: rat) \<le> of_int (2 ^ nat (bitlen n))"
      by (simp only: of_int_le_iff)
    then show ?thesis unfolding e by simp
  qed
  finally have "1 / q \<le> 2 powi (bitlen n)" .
  moreover have "(0::rat) < 2 powi (bitlen n)" by (simp add: power_int_def)
  ultimately have "1 / 2 powi (bitlen n) \<le> q"
    using assms by (simp add: field_simps)
  then show ?thesis using False by (simp add: ilog2_def n_def power_int_minus_divide)
qed

lemma round_even_near: "\<bar>of_int (round_even q) - q\<bar> \<le> 1 / 2"
proof -
  have "of_int \<lfloor>q\<rfloor> \<le> q" "q < of_int \<lfloor>q\<rfloor> + 1" by linarith+
  then show ?thesis unfolding round_even_def Let_def by (auto simp: abs_le_iff)
qed

lemma round_even_of_int: "round_even (of_int n) = n"
  unfolding round_even_def Let_def by simp


lemma ilog2_less:
  assumes "0 < q"
  shows "q < 2 powi (ilog2 q + 1)"
proof (cases "1 \<le> q")
  case True
  then have n: "0 \<le> \<lfloor>q\<rfloor>" by simp
  have "q < of_int \<lfloor>q\<rfloor> + 1" by linarith
  also have "\<dots> \<le> 2 powi (bitlen \<lfloor>q\<rfloor>)"
  proof -
    have "0 \<le> bitlen \<lfloor>q\<rfloor>" by (rule bitlen_nonneg)
    then have e: "(2::rat) powi (bitlen \<lfloor>q\<rfloor>) = of_int (2 ^ nat (bitlen \<lfloor>q\<rfloor>))"
      by (simp add: power_int_def)
    from pow2_bitlen_gt[OF n] have "of_int \<lfloor>q\<rfloor> < (of_int (2 ^ nat (bitlen \<lfloor>q\<rfloor>)) :: rat)"
      unfolding e .
    then have "\<lfloor>q\<rfloor> < 2 ^ nat (bitlen \<lfloor>q\<rfloor>)" by (simp only: of_int_less_iff)
    then have "\<lfloor>q\<rfloor> + 1 \<le> 2 ^ nat (bitlen \<lfloor>q\<rfloor>)" by simp
    then have "(of_int (\<lfloor>q\<rfloor> + 1) :: rat) \<le> of_int (2 ^ nat (bitlen \<lfloor>q\<rfloor>))"
      by (simp only: of_int_le_iff)
    then show ?thesis unfolding e by simp
  qed
  finally show ?thesis using True by (simp add: ilog2_def)
next
  case False
  define n where "n = \<lceil>1 / q\<rceil> - 1"
  from False assms have q1: "1 < 1 / q" by simp
  show ?thesis
  proof (cases "n = 0")
    case True
    then show ?thesis using False by (simp add: ilog2_def n_def)
  next
    case n0: False
    from assms have "of_int 0 < 1 / q" by simp
    then have "0 < \<lceil>1 / q\<rceil>" by (simp only: less_ceiling_iff)
    then have "0 \<le> n" unfolding n_def by simp
    with n0 have n: "0 < n" by simp
    then have "(2::rat) powi (bitlen n - 1) \<le> of_int n" by (rule pow2_bitlen_le)
    also have "of_int n < 1 / q" unfolding n_def by linarith
    finally have "2 powi (bitlen n - 1) < 1 / q" .
    moreover have "(0::rat) < 2 powi (bitlen n - 1)" by (simp add: power_int_def)
    ultimately have "q < 1 / 2 powi (bitlen n - 1)"
      using assms by (simp add: field_simps)
    also have "\<dots> = 2 powi (- bitlen n + 1)"
      by (simp add: power_int_minus_divide[symmetric])
    finally show ?thesis using False by (simp add: ilog2_def n_def)
  qed
qed

text \<open>What rounding loses: at most half a unit in the last place.\<close>

lemma to_double_near:
  assumes "\<bar>q\<bar> \<le> 2 ^ 13"
  shows "\<exists>r. to_double q = Fin r \<and> \<bar>r - q\<bar> \<le> 1 / 2 ^ 40"
proof (cases "q = 0")
  case True
  then show ?thesis by (simp add: to_double_def)
next
  case False
  define e where "e = max (ilog2 \<bar>q\<bar>) (- 1022)"
  define u :: rat where "u = 2 powi (e - 52)"
  define r where "r = of_int (round_even (q / u)) * u"
  have upos: "0 < u" unfolding u_def by (simp add: power_int_def)
  from False have "2 powi (ilog2 \<bar>q\<bar>) \<le> \<bar>q\<bar>" by (intro ilog2_le) simp
  with assms have "(2::rat) powi (ilog2 \<bar>q\<bar>) \<le> 2 powi 13" by simp
  then have "ilog2 \<bar>q\<bar> \<le> 13" by (rule power_int_le_imp_le_exp[of 2, rotated]) simp_all
  then have e: "e \<le> 13" unfolding e_def by simp
  then have "u \<le> 2 powi (- 39)" unfolding u_def by (intro power_int_increasing) simp_all
  then have u: "u \<le> 1 / 2 ^ 39" by (simp add: power_int_minus_divide)
  have "r - q = (of_int (round_even (q / u)) - q / u) * u"
    using upos by (simp add: r_def algebra_simps)
  then have "\<bar>r - q\<bar> = \<bar>of_int (round_even (q / u)) - q / u\<bar> * u"
    using upos by (simp add: abs_mult)
  also have "\<dots> \<le> 1 / 2 * u"
    using round_even_near[of "q / u"] upos by (intro mult_right_mono) simp_all
  also have "\<dots> \<le> 1 / 2 ^ 40" using u by simp
  finally have near: "\<bar>r - q\<bar> \<le> 1 / 2 ^ 40" .
  then have "\<bar>r - q\<bar> \<le> 1" by simp
  moreover from assms have "\<bar>q\<bar> \<le> 8192" by simp
  ultimately have "\<bar>r\<bar> \<le> 8193" by linarith
  also have "\<dots> < (2::rat) powi 1024" by simp
  finally have "\<not> 2 powi 1024 \<le> \<bar>r\<bar>" by simp
  then have "to_double q = Fin r"
    using False unfolding to_double_def Let_def r_def u_def e_def by simp
  with near show ?thesis by blast
qed

text \<open>An integer of at most 53 bits is a double.\<close>

lemma to_double_of_int:
  assumes "\<bar>n\<bar> < 2 ^ 53"
  shows "to_double (of_int n) = Fin (of_int n)"
proof (cases "n = 0")
  case True
  then show ?thesis by (simp add: to_double_def)
next
  case False
  define q :: rat where "q = of_int n"
  define e where "e = max (ilog2 \<bar>q\<bar>) (- 1022)"
  define u :: rat where "u = 2 powi (e - 52)"
  from False have q0: "q \<noteq> 0" by (simp add: q_def)
  then have "2 powi (ilog2 \<bar>q\<bar>) \<le> \<bar>q\<bar>" by (intro ilog2_le) simp
  also have "\<bar>q\<bar> = of_int \<bar>n\<bar>" by (simp add: q_def)
  also have "\<dots> \<le> of_int (2 ^ 53)" using assms by (simp only: of_int_le_iff)
  finally have "(2::rat) powi (ilog2 \<bar>q\<bar>) \<le> 2 powi 53" by simp
  then have "ilog2 \<bar>q\<bar> \<le> 53" by (rule power_int_le_imp_le_exp[of 2, rotated]) simp_all
  moreover have "ilog2 \<bar>q\<bar> \<noteq> 53"
  proof
    assume "ilog2 \<bar>q\<bar> = 53"
    with \<open>2 powi (ilog2 \<bar>q\<bar>) \<le> \<bar>q\<bar>\<close> have "(2::rat) ^ 53 \<le> \<bar>q\<bar>" by simp
    also have "\<bar>q\<bar> = of_int \<bar>n\<bar>" by (simp add: q_def)
    finally have "(of_int (2 ^ 53) :: rat) \<le> of_int \<bar>n\<bar>" by simp
    then have "2 ^ 53 \<le> \<bar>n\<bar>" by (simp only: of_int_le_iff)
    with assms show False by simp
  qed
  ultimately have e: "e \<le> 52" unfolding e_def by simp
  define k where "k = nat (52 - e)"
  have "u = 1 / 2 ^ k" unfolding u_def k_def using e
    by (simp add: power_int_def power_one_over)
  then have qu: "q / u = of_int (n * 2 ^ k)" by (simp add: q_def)
  have "round_even (q / u) = n * 2 ^ k" unfolding qu by (rule round_even_of_int)
  then have "of_int (round_even (q / u)) * u = q"
    using \<open>u = 1 / 2 ^ k\<close> by (simp add: q_def)
  moreover have "\<not> 2 powi 1024 \<le> \<bar>q\<bar>"
  proof -
    have "\<bar>q\<bar> = of_int \<bar>n\<bar>" by (simp add: q_def)
    also have "\<dots> < of_int (2 ^ 53)" using assms by (simp only: of_int_less_iff)
    also have "\<dots> < (2::rat) powi 1024" by simp
    finally show ?thesis by simp
  qed
  ultimately show ?thesis
    using q0 unfolding to_double_def Let_def u_def e_def q_def[symmetric] by simp
qed

text \<open>
  The same function in a form that evaluates fast: an integer of at most 53 bits is not
  rounded, and \<open>2 ^ 1024\<close> is computed as a power of \<open>2 ^ 32\<close>.
\<close>

lemma to_double_code [code]:
  "to_double q =
     (if of_int \<lfloor>q\<rfloor> = q \<and> \<bar>q\<bar> < 2 ^ 53 then Fin q
      else
        let e = max (ilog2 \<bar>q\<bar>) (- 1022);
            u = 2 powi (e - 52);
            r = of_int (round_even (q / u)) * u
        in if (2 ^ 32) ^ 32 \<le> \<bar>r\<bar> then (if q < 0 then NInf else PInf) else Fin r)"
proof (cases "of_int \<lfloor>q\<rfloor> = q \<and> \<bar>q\<bar> < 2 ^ 53")
  case True
  then have eq: "of_int \<lfloor>q\<rfloor> = q" and lt: "\<bar>q\<bar> < 2 ^ 53" by blast+
  from lt have "\<bar>of_int \<lfloor>q\<rfloor> :: rat\<bar> < of_int (2 ^ 53)" unfolding eq by simp
  then have "(of_int \<bar>\<lfloor>q\<rfloor>\<bar> :: rat) < of_int (2 ^ 53)" by (simp only: of_int_abs)
  then have "\<bar>\<lfloor>q\<rfloor>\<bar> < 2 ^ 53" by (simp only: of_int_less_iff)
  then have "to_double (of_int \<lfloor>q\<rfloor>) = Fin (of_int \<lfloor>q\<rfloor>)" by (rule to_double_of_int)
  then have "to_double q = Fin q" unfolding eq .
  with True show ?thesis by (simp only: if_True simp_thms)
next
  case False
  then have "q \<noteq> 0" by auto
  have pw: "((2::rat) ^ 32) ^ 32 = 2 powi 1024" by simp
  show ?thesis by (simp only: to_double_def pw False \<open>q \<noteq> 0\<close> if_False)
qed

section \<open>Properties of the detector\<close>

subsection \<open>No exception leaves a detector\<close>

lemma try_catch_total: "\<exists>r. try_catch body (\<lambda>e. Inr None) = Inr r"
  by (cases body) (simp_all add: try_catch_def)

lemma detectJwt_total: "\<exists>r. detectJwt input = Inr r"
  unfolding detectJwt_def Let_def by (simp add: try_catch_total)

lemma detectBase64_total: "\<exists>r. detectBase64 input = Inr r"
  unfolding detectBase64_def Let_def by (simp add: try_catch_total)

lemma detectUrlEncoded_total: "\<exists>r. detectUrlEncoded input = Inr r"
  unfolding detectUrlEncoded_def Let_def by (simp add: try_catch_total)

lemma detectJson_total: "\<exists>r. detectJson input = Inr r"
  unfolding detectJson_def Let_def by (simp add: try_catch_total)

lemma detectUuid_total: "\<exists>r. detectUuid input = Inr r"
  unfolding detectUuid_def Let_def by simp

lemma detectNumber_total: "\<exists>r. detectNumber input = Inr r"
  unfolding detectNumber_def Let_def by simp

lemma detectColor_total: "\<exists>r. detectColor input = Inr r"
  unfolding detectColor_def Let_def by simp

lemma detectTimestamp_total: "\<exists>r. detectTimestamp input = Inr r"
  unfolding detectTimestamp_def Let_def by (simp split: option.split)

lemma detectHtml_total: "\<exists>r. detectHtml input = Inr r"
  unfolding detectHtml_def Let_def by simp

lemma detectCss_total: "\<exists>r. detectCss input = Inr r"
  unfolding detectCss_def Let_def by simp

lemma detectJavaScript_total: "\<exists>r. detectJavaScript input = Inr r"
  unfolding detectJavaScript_def Let_def by simp

lemmas detector_total = detectJwt_total detectUuid_total detectJson_total detectColor_total
  detectTimestamp_total detectNumber_total detectUrlEncoded_total detectBase64_total
  detectHtml_total detectCss_total detectJavaScript_total

lemma first_result_total:
  assumes "\<And>d. d \<in> set ds \<Longrightarrow> \<exists>r. d input = Inr r"
  shows "\<exists>r. first_result ds input = Inr r"
  using assms
proof (induction ds)
  case Nil
  then show ?case by simp
next
  case (Cons d ds)
  from Cons.prems obtain r where r: "d input = Inr r" by auto
  show ?case
  proof (cases r)
    case None
    with r Cons show ?thesis by simp
  next
    case (Some a)
    with r show ?thesis by simp
  qed
qed

lemma detectors_total: "\<exists>r. first_result detectors input = Inr r"
  by (rule first_result_total) (auto simp: detectors_def detector_total)

text \<open>
  Claim C1. \<^verbatim>\<open>detect\<close> is total: for every argument it returns a result and no
  exception leaves it; for the empty string, and for an argument that is not a string, the
  result is \<^verbatim>\<open>text\<close> with confidence 0.5.
\<close>

theorem detect_total:
  "(\<exists>r. detect arg = Inr r)
   \<and> detect (Str []) = Inr \<lparr>type = TText, confidence = 1 / 2, raw = [], parsed = None\<rparr>
   \<and> detect NonString = Inr \<lparr>type = TText, confidence = 1 / 2, raw = [], parsed = None\<rparr>"
proof -
  have "\<exists>r. detect arg = Inr r"
  proof (cases arg)
    case (Str input)
    obtain r where "first_result detectors input = Inr r"
      using detectors_total by blast
    with Str show ?thesis
      by (cases r) (simp_all add: detect_def)
  next
    case NonString
    then show ?thesis by (simp add: detect_def)
  qed
  then show ?thesis
    by (simp add: detect_def detectText_def)
qed

subsection \<open>Facts about the matcher\<close>

lemma rep_0: "rep 0 r = Eps"
  by (simp add: rep.simps)

lemma rep_Suc: "rep (Suc n) r = Seq r (rep n r)"
  by (subst rep.simps) simp

lemma upto_rep_0: "upto_rep 0 r = Eps"
  by (simp add: upto_rep.simps)

lemma upto_rep_Suc: "upto_rep (Suc n) r = Opt (Seq r (upto_rep n r))"
  by (subst upto_rep.simps) simp

lemma rx_run_suffix:
  "(c', s') \<in> set (rx_run r c s) \<Longrightarrow> \<exists>u. s = u @ s'"
proof (induction r c s arbitrary: c' s' rule: rx_run.induct)
  case (1 caps s)
  then show ?case by simp
next
  case (2 P caps s)
  then show ?case by (cases s) (auto split: if_splits)
next
  case (3 a b caps s)
  from "3.prems" obtain c1 s1 where a: "(c1, s1) \<in> set (rx_run a caps s)"
    and b: "(c', s') \<in> set (rx_run b c1 s1)"
    by auto
  from "3.IH"(1)[OF a] obtain u where "s = u @ s1" by blast
  moreover from "3.IH"(2)[OF a refl b] obtain v where "s1 = v @ s'" by blast
  ultimately show ?case by simp
next
  case (4 a b caps s)
  then show ?case by auto
next
  case (5 a caps s)
  from "5.prems" [unfolded rx_run.simps(5) [of a caps s]] consider "(c', s') = (caps, s)"
    | c1 s1 where "(c1, s1) \<in> set (rx_run a caps s)" "length s1 < length s"
        "(c', s') \<in> set (rx_run (Star a) c1 s1)"
    by auto
  then show ?case
  proof cases
    case 1
    then show ?thesis by simp
  next
    case 2
    from "5.IH"(1)[OF 2(1)] obtain u where "s = u @ s1" by blast
    moreover from "5.IH"(2)[of "(c1, s1)" c1 s1, OF _ refl 2(3)] 2 obtain v where "s1 = v @ s'"
      by auto
    ultimately show ?thesis by simp
  qed
next
  case (6 a caps s)
  from "6.prems" [unfolded rx_run.simps(6) [of a caps s]] consider "(c', s') = (caps, s)"
    | c1 s1 where "(c1, s1) \<in> set (rx_run a caps s)" "length s1 < length s"
        "(c', s') \<in> set (rx_run (LazyStar a) c1 s1)"
    by auto
  then show ?case
  proof cases
    case 1
    then show ?thesis by simp
  next
    case 2
    from "6.IH"(1)[OF 2(1)] obtain u where "s = u @ s1" by blast
    moreover from "6.IH"(2)[of "(c1, s1)" c1 s1, OF _ refl 2(3)] 2 obtain v where "s1 = v @ s'"
      by auto
    ultimately show ?thesis by simp
  qed
next
  case (7 i a caps s)
  then show ?case by auto
next
  case (8 caps s)
  then show ?case by (auto split: if_splits)
qed

lemma rx_run_Cls_blocked:
  "(\<And>x. x \<in> set s \<Longrightarrow> \<not> P x) \<Longrightarrow> rx_run (Cls P) c s = []"
  by (cases s) auto

text \<open>A pattern whose next mandatory character occurs nowhere in the input fails.\<close>

lemma rx_run_Seq_blocked:
  assumes "\<And>x. x \<in> set s \<Longrightarrow> \<not> P x"
  shows "rx_run (Seq a (Seq (Cls P) b)) c s = []"
proof -
  have "rx_run (Seq (Cls P) b) c1 s1 = []" if "(c1, s1) \<in> set (rx_run a c s)" for c1 s1
  proof -
    from rx_run_suffix[OF that] obtain u where "s = u @ s1" by blast
    with assms have "\<And>x. x \<in> set s1 \<Longrightarrow> \<not> P x" by auto
    then have "rx_run (Cls P) c1 s1 = []" by (rule rx_run_Cls_blocked)
    then show ?thesis by simp
  qed
  then show ?thesis by auto
qed

lemma rx_run_rep_Cls:
  "rx_run (rep n (Cls P)) c s = (if n \<le> length (takeWhile P s) then [(c, drop n s)] else [])"
proof (induction n arbitrary: s)
  case 0
  then show ?case by (simp add: rep_0)
next
  case (Suc n)
  show ?case
  proof (cases s)
    case Nil
    then show ?thesis by (simp add: rep_Suc)
  next
    case (Cons x xs)
    then show ?thesis by (simp add: rep_Suc Suc)
  qed
qed

lemma set_rx_run_upto_rep_Cls:
  "set (rx_run (upto_rep k (Cls P)) c s)
     = {(c, drop j s) | j. j \<le> k \<and> j \<le> length (takeWhile P s)}"
proof (induction k arbitrary: s)
  case 0
  then show ?case by (simp add: upto_rep_0)
next
  case (Suc k)
  show ?case
  proof (cases s)
    case Nil
    then show ?thesis by (auto simp: upto_rep_Suc Opt_def)
  next
    case (Cons x xs)
    show ?thesis
    proof (cases "P x")
      case True
      have "{(c, drop j (x # xs)) | j. j \<le> Suc k \<and> j \<le> Suc (length (takeWhile P xs))}
          = insert (c, x # xs) {(c, drop j xs) | j. j \<le> k \<and> j \<le> length (takeWhile P xs)}"
        (is "?L = ?R")
      proof
        show "?L \<subseteq> ?R"
        proof
          fix p assume "p \<in> ?L"
          then obtain j where j: "p = (c, drop j (x # xs))" "j \<le> Suc k"
            "j \<le> Suc (length (takeWhile P xs))" by blast
          show "p \<in> ?R"
          proof (cases j)
            case 0
            with j show ?thesis by simp
          next
            case (Suc j')
            with j show ?thesis by auto
          qed
        qed
        show "?R \<subseteq> ?L"
        proof
          fix p assume "p \<in> ?R"
          then consider "p = (c, x # xs)"
            | j where "p = (c, drop j xs)" "j \<le> k" "j \<le> length (takeWhile P xs)" by blast
          then show "p \<in> ?L"
          proof cases
            case 1
            then have "p = (c, drop 0 (x # xs))" by simp
            then show ?thesis by blast
          next
            case 2
            then have "p = (c, drop (Suc j) (x # xs))" "Suc j \<le> Suc k"
              "Suc j \<le> Suc (length (takeWhile P xs))" by simp_all
            then show ?thesis by blast
          qed
        qed
      qed
      with True Cons Suc show ?thesis by (simp add: upto_rep_Suc Opt_def)
    next
      case False
      with Cons show ?thesis by (auto simp: upto_rep_Suc Opt_def)
    qed
  qed
qed

subsection \<open>Which detector a result comes from\<close>

lemma try_catch_Some:
  "try_catch body (\<lambda>e. Inr None) = Inr (Some r) \<longleftrightarrow> body = Inr (Some r)"
  by (cases body) (auto simp: try_catch_def)

lemma bind_Inr: "bind m f = Inr y \<longleftrightarrow> (\<exists>x. m = Inr x \<and> f x = Inr y)"
  by (cases m) (auto simp: bind_def)

lemma detectJwt_type: "detectJwt input = Inr (Some r) \<Longrightarrow> type r = TJwt"
  unfolding detectJwt_def Let_def
  by (auto simp: try_catch_Some bind_Inr split: if_splits list.splits)

lemma detectUuid_type: "detectUuid input = Inr (Some r) \<Longrightarrow> type r = TUuid"
  unfolding detectUuid_def Let_def by (auto split: if_splits)

lemma detectJson_type: "detectJson input = Inr (Some r) \<Longrightarrow> type r = TJson"
  unfolding detectJson_def Let_def
  by (auto simp: try_catch_Some bind_Inr split: if_splits)

lemma detectColor_type: "detectColor input = Inr (Some r) \<Longrightarrow> type r = TColor"
  unfolding detectColor_def Let_def by (auto split: if_splits)

lemma detectTimestamp_type: "detectTimestamp input = Inr (Some r) \<Longrightarrow> type r = TTimestamp"
  unfolding detectTimestamp_def Let_def by (auto split: if_splits option.splits)

lemma detectNumber_type: "detectNumber input = Inr (Some r) \<Longrightarrow> type r = TNumber"
  unfolding detectNumber_def Let_def by (auto split: if_splits)

lemma detectUrlEncoded_type: "detectUrlEncoded input = Inr (Some r) \<Longrightarrow> type r = TUrl"
  unfolding detectUrlEncoded_def Let_def
  by (auto simp: try_catch_Some bind_Inr split: if_splits)

lemma detectBase64_type: "detectBase64 input = Inr (Some r) \<Longrightarrow> type r = TBase64"
  unfolding detectBase64_def Let_def
  by (auto simp: try_catch_Some bind_Inr split: if_splits)

lemma guarded_result_type:
  "(if a then Inr None else if b then Inr (Some R) else Inr None) = Inr (Some r)
     \<Longrightarrow> type r = type R"
  by (auto split: if_splits)

lemma detectHtml_type: "detectHtml input = Inr (Some r) \<Longrightarrow> type r = THtml"
  unfolding detectHtml_def Let_def
  by (drule guarded_result_type) (simp only: DetectionResult.select_convs)

lemma detectCss_type: "detectCss input = Inr (Some r) \<Longrightarrow> type r = TCss"
  by (simp only: detectCss_def Let_def split: if_splits) auto

lemma detectJavaScript_type: "detectJavaScript input = Inr (Some r) \<Longrightarrow> type r = TJavascript"
  by (simp only: detectJavaScript_def Let_def split: if_splits) auto

lemma first_result_skip:
  "(\<And>p. p \<in> set pre \<Longrightarrow> p input = Inr None) \<Longrightarrow>
     first_result (pre @ ds) input = first_result ds input"
proof (induction pre)
  case Nil
  then show ?case by simp
next
  case (Cons a pre)
  have "a input = Inr None" by (rule Cons.prems) simp
  moreover have "first_result (pre @ ds) input = first_result ds input"
    by (rule Cons.IH) (simp add: Cons.prems)
  ultimately show ?case by simp
qed

lemma first_result_origin:
  "first_result ds input = Inr (Some r) \<Longrightarrow> \<exists>p \<in> set ds. p input = Inr (Some r)"
  by (induction ds) (auto split: sum.splits option.splits)

lemma first_result_split:
  assumes res: "first_result (pre @ d # post) input = Inr (Some r)"
    and other: "\<And>p r'. p \<in> set pre \<union> set post \<Longrightarrow> p input = Inr (Some r') \<Longrightarrow> type r' \<noteq> type r"
  shows "(\<forall>p \<in> set pre. p input = Inr None) \<and> d input = Inr (Some r)"
  using res other
proof (induction pre)
  case Nil
  show ?case
  proof (cases "d input")
    case (Inl e)
    with Nil.prems(1) show ?thesis by simp
  next
    case (Inr x)
    show ?thesis
    proof (cases x)
      case None
      with Inr Nil.prems(1) have "first_result post input = Inr (Some r)" by simp
      from first_result_origin[OF this] Nil.prems(2) show ?thesis by auto
    next
      case (Some r')
      with Inr Nil.prems(1) show ?thesis by simp
    qed
  qed
next
  case (Cons p pre)
  show ?case
  proof (cases "p input")
    case (Inl e)
    with Cons.prems(1) show ?thesis by simp
  next
    case (Inr x)
    show ?thesis
    proof (cases x)
      case None
      with Inr Cons.prems(1) have "first_result (pre @ d # post) input = Inr (Some r)" by simp
      from Cons.IH[OF this] Cons.prems(2) Inr None show ?thesis by auto
    next
      case (Some r')
      with Inr Cons.prems(1) have "r' = r" by simp
      with Cons.prems(2)[of p r'] Inr Some show ?thesis by auto
    qed
  qed
qed

lemma detect_Str:
  "input \<noteq> [] \<Longrightarrow>
     detect (Str input) = (case first_result detectors input of
                             Inl e \<Rightarrow> Inl e
                           | Inr (Some result) \<Rightarrow> Inr result
                           | Inr None \<Rightarrow> Inr (detectText input))"
  by (simp add: detect_def)

lemma detect_typed:
  assumes "detect (Str input) = Inr r" and "type r \<noteq> TText"
  shows "input \<noteq> [] \<and> first_result detectors input = Inr (Some r)"
proof -
  from assms have ne: "input \<noteq> []"
    by (auto simp: detect_def detectText_def split: if_splits)
  with assms show ?thesis
    by (auto simp: detect_Str detectText_def split: sum.splits option.splits)
qed


lemma detectors_at_color:
  "detectors = [detectJwt, detectUuid, detectJson] @ detectColor # [detectTimestamp,
     detectNumber, detectUrlEncoded, detectBase64, detectHtml, detectCss, detectJavaScript]"
  by (simp add: detectors_def)

lemma detectors_at_timestamp:
  "detectors = [detectJwt, detectUuid, detectJson, detectColor] @ detectTimestamp #
     [detectNumber, detectUrlEncoded, detectBase64, detectHtml, detectCss, detectJavaScript]"
  by (simp add: detectors_def)

lemma detectors_at_url:
  "detectors = [detectJwt, detectUuid, detectJson, detectColor, detectTimestamp, detectNumber]
     @ detectUrlEncoded # [detectBase64, detectHtml, detectCss, detectJavaScript]"
  by (simp add: detectors_def)

lemma detectors_at_base64:
  "detectors = [detectJwt, detectUuid, detectJson, detectColor, detectTimestamp, detectNumber,
     detectUrlEncoded] @ detectBase64 # [detectHtml, detectCss, detectJavaScript]"
  by (simp add: detectors_def)

lemmas detector_type = detectJwt_type detectUuid_type detectJson_type detectColor_type
  detectTimestamp_type detectNumber_type detectUrlEncoded_type detectBase64_type
  detectHtml_type detectCss_type detectJavaScript_type

lemma detect_timestamp_source:
  assumes "detect (Str input) = Inr r" and "type r = TTimestamp"
  shows "detectTimestamp input = Inr (Some r)"
proof -
  from detect_typed[OF assms(1)] assms(2)
  have "first_result detectors input = Inr (Some r)" by simp
  then have "first_result ([detectJwt, detectUuid, detectJson, detectColor] @ detectTimestamp #
     [detectNumber, detectUrlEncoded, detectBase64, detectHtml, detectCss, detectJavaScript]) input
       = Inr (Some r)"
    by (simp only: detectors_at_timestamp)
  moreover have "type r' \<noteq> type r"
    if "p \<in> set [detectJwt, detectUuid, detectJson, detectColor] \<union>
          set [detectNumber, detectUrlEncoded, detectBase64, detectHtml, detectCss, detectJavaScript]"
      and "p input = Inr (Some r')" for p r'
    using that assms(2) by (auto dest: detector_type)
  ultimately show ?thesis
    using first_result_split by blast
qed

lemma detect_from:
  assumes "detectors = pre @ d # post" and "\<And>p. p \<in> set pre \<Longrightarrow> p input = Inr None"
    and "d input = Inr (Some r)" and "input \<noteq> []"
  shows "detect (Str input) = Inr r"
proof -
  have "first_result detectors input = first_result (d # post) input"
    unfolding assms(1) using assms(2) by (rule first_result_skip)
  with assms(3,4) show ?thesis by (simp add: detect_Str)
qed

lemma trim_Nil: "trim [] = []"
  by (simp add: trim_def)




subsection \<open>Timestamps\<close>

lemma seqs_Cons: "seqs (r # rs) = Seq r (seqs rs)"
  by (simp add: seqs_def)

lemma seqs_Nil: "seqs [] = Eps"
  by (simp add: seqs_def)

lemma cu_simps:
  "cu CHR ''.'' = 46" "cu CHR ''-'' = 45" "cu CHR ''#'' = 35" "cu CHR ''%'' = 37"
  "cu CHR ''_'' = 95" "cu CHR ''/'' = 47" "cu CHR ''+'' = 43" "cu CHR ''=''  = 61"
  "cu CHR ''r'' = 114" "cu CHR ''h'' = 104"
  by (simp_all add: cu_def)

lemma JWT_needs_dot:
  assumes "\<And>x. x \<in> set t \<Longrightarrow> x \<noteq> 46"
  shows "\<not> rx_test_anchored JWT_REGEX t"
proof -
  have "rx_run JWT_REGEX [] t = []"
    unfolding JWT_REGEX_def seqs_Cons chr_def
    by (rule rx_run_Seq_blocked) (use assms in \<open>simp add: cu_simps\<close>)
  then show ?thesis by (simp add: rx_test_anchored_def)
qed

lemma UUID_needs_hyphen:
  assumes "\<And>x. x \<in> set t \<Longrightarrow> x \<noteq> 45"
  shows "\<not> rx_test_anchored UUID_REGEX t"
proof -
  have "rx_run UUID_REGEX [] t = []"
    unfolding UUID_REGEX_def seqs_Cons chr_def
    by (rule rx_run_Seq_blocked) (use assms in \<open>simp add: cu_simps\<close>)
  then show ?thesis by (simp add: rx_test_anchored_def)
qed

lemma rx_run_Seq_Cls_blocked:
  assumes "\<And>x. x \<in> set s \<Longrightarrow> \<not> P x"
  shows "rx_run (Seq (Cls P) b) c s = []"
proof -
  have "rx_run (Cls P) c s = []" using assms by (rule rx_run_Cls_blocked)
  then show ?thesis by (simp del: rx_run.simps(2))
qed

lemma rx_run_Seq_Seq_Cls_blocked:
  assumes "\<And>x. x \<in> set s \<Longrightarrow> \<not> P x"
  shows "rx_run (Seq (Seq (Cls P) a) b) c s = []"
proof -
  have "rx_run (Cls P) c s = []" using assms by (rule rx_run_Cls_blocked)
  then show ?thesis by (simp del: rx_run.simps(2))
qed

lemma HEX_COLOR_needs_hash:
  assumes "\<And>x. x \<in> set t \<Longrightarrow> x \<noteq> 35"
  shows "\<not> rx_test_anchored HEX_COLOR_REGEX t"
proof -
  have "rx_run HEX_COLOR_REGEX [] t = []"
    unfolding HEX_COLOR_REGEX_def seqs_Cons chr_def
    by (rule rx_run_Seq_Cls_blocked) (use assms in \<open>simp add: cu_simps\<close>)
  then show ?thesis by (simp add: rx_test_anchored_def)
qed

lemma RGB_COLOR_needs_r:
  assumes "\<And>x. x \<in> set t \<Longrightarrow> x \<noteq> 114 \<and> x \<noteq> 82"
  shows "\<not> rx_test_anchored RGB_COLOR_REGEX t"
proof -
  have "ascii_lower x \<noteq> 114" if "x \<in> set t" for x
    using assms[OF that] by (auto simp: ascii_lower_def is_upper_def)
  then have "rx_run RGB_COLOR_REGEX [] t = []"
    unfolding RGB_COLOR_REGEX_def lit_ci_def list.map seqs_Cons chr_ci_def
    by (intro rx_run_Seq_Seq_Cls_blocked) (simp add: cu_simps ascii_lower_def is_upper_def)
  then show ?thesis by (simp add: rx_test_anchored_def)
qed

lemma HSL_COLOR_needs_h:
  assumes "\<And>x. x \<in> set t \<Longrightarrow> x \<noteq> 104 \<and> x \<noteq> 72"
  shows "\<not> rx_test_anchored HSL_COLOR_REGEX t"
proof -
  have "ascii_lower x \<noteq> 104" if "x \<in> set t" for x
    using assms[OF that] by (auto simp: ascii_lower_def is_upper_def)
  then have "rx_run HSL_COLOR_REGEX [] t = []"
    unfolding HSL_COLOR_REGEX_def lit_ci_def list.map seqs_Cons chr_ci_def
    by (intro rx_run_Seq_Seq_Cls_blocked) (simp add: cu_simps ascii_lower_def is_upper_def)
  then show ?thesis by (simp add: rx_test_anchored_def)
qed

lemma rx_test_anchored_set: "rx_test_anchored r t \<longleftrightarrow> set (rx_run r [] t) \<noteq> {}"
  by (simp add: rx_test_anchored_def)

lemma takeWhile_prefix_all:
  assumes "n \<le> length (takeWhile P t)"
  shows "list_all P (take n t)"
proof -
  have "take n (takeWhile P t @ dropWhile P t) = take n (takeWhile P t)"
    using assms by (simp only: take_append) simp
  then have "take n t = take n (takeWhile P t)"
    by (simp only: takeWhile_dropWhile_id)
  then have "set (take n t) \<subseteq> set (takeWhile P t)" by (metis set_take_subset)
  then show ?thesis by (auto simp: list_all_iff dest: set_takeWhileD)
qed

lemma takeWhile_whole:
  assumes "length s \<le> length (takeWhile P s)"
  shows "list_all P s"
proof -
  have "length (takeWhile P s) \<le> length s" by (rule length_takeWhile_le)
  with assms have "length (takeWhile P s) = length s" by simp
  then have "takeWhile P s = s"
    by (metis append_eq_conv_conj takeWhile_dropWhile_id take_all_iff order_refl)
  then show ?thesis by (metis list_all_iff set_takeWhileD)
qed

lemma rx_test_class_range:
  assumes "n \<le> m"
  shows "rx_test_anchored (seqs [rep_range n m (Cls P), Eoi]) t
           \<longleftrightarrow> list_all P t \<and> n \<le> length t \<and> length t \<le> m"
proof -
  have run: "set (rx_run (seqs [rep_range n m (Cls P), Eoi]) [] t) \<noteq> {} \<longleftrightarrow>
      (\<exists>j. j \<le> m - n \<and> n \<le> length (takeWhile P t) \<and> j \<le> length (takeWhile P (drop n t))
           \<and> drop j (drop n t) = [])"
    by (auto simp: seqs_Cons seqs_Nil rep_range_def rx_run_rep_Cls set_rx_run_upto_rep_Cls)
  show ?thesis
    unfolding rx_test_anchored_set run
  proof
    assume "\<exists>j. j \<le> m - n \<and> n \<le> length (takeWhile P t) \<and> j \<le> length (takeWhile P (drop n t))
           \<and> drop j (drop n t) = []"
    then obtain j where j: "j \<le> m - n" "n \<le> length (takeWhile P t)"
      "j \<le> length (takeWhile P (drop n t))" "drop j (drop n t) = []" by blast
    have "length (takeWhile P t) \<le> length t" by (rule length_takeWhile_le)
    with j(2) have n: "n \<le> length t" by simp
    from j(4) have "length (drop n t) \<le> j" by simp
    with j(1) n assms have m: "length t \<le> m" by simp
    from \<open>length (drop n t) \<le> j\<close> j(3) have "list_all P (drop n t)"
      by (intro takeWhile_whole) simp
    moreover from j(2) have "list_all P (take n t)" by (rule takeWhile_prefix_all)
    ultimately have "list_all P (take n t @ drop n t)"
      by (simp only: list_all_append)
    then have "list_all P t" by (simp only: append_take_drop_id)
    with n m show "list_all P t \<and> n \<le> length t \<and> length t \<le> m" by simp
  next
    assume a: "list_all P t \<and> n \<le> length t \<and> length t \<le> m"
    then have tw: "takeWhile P t = t" by (simp add: list_all_iff)
    from a have "list_all P (drop n t)" by (auto simp: list_all_iff dest: in_set_dropD)
    then have tw': "takeWhile P (drop n t) = drop n t" by (simp add: list_all_iff)
    have l1: "length (takeWhile P t) = length t" by (simp only: tw)
    have l2: "length (takeWhile P (drop n t)) = length t - n" by (simp only: tw' length_drop)
    from a have "length t - n \<le> m - n" by (intro diff_le_mono) simp
    moreover have "drop (length t - n) (drop n t) = []" by simp
    ultimately show "\<exists>j. j \<le> m - n \<and> n \<le> length (takeWhile P t) \<and> j \<le> length (takeWhile P (drop n t))
           \<and> drop j (drop n t) = []"
      using a by (intro exI[of _ "length t - n"]) (simp add: l1 l2)
  qed
qed

lemma EPOCH_REGEX_iff:
  "rx_test_anchored EPOCH_REGEX t \<longleftrightarrow> list_all is_digit t \<and> 10 \<le> length t \<and> length t \<le> 13"
  unfolding EPOCH_REGEX_def digit_cls_def by (rule rx_test_class_range) simp

lemma is_radix_digit_10: "is_radix_digit 10 = is_digit"
  by (auto simp: is_radix_digit_def digit_val_def is_digit_def is_upper_def is_lower_def fun_eq_iff)

lemma digit_not_ws: "is_digit c \<Longrightarrow> \<not> is_ws c"
  by (auto simp: is_digit_def is_ws_def)

lemma parseInt_digits:
  assumes "list_all is_digit t" and "t \<noteq> []"
  shows "parseInt t 10 = Some (int (digits_value 10 t))"
proof -
  from assms obtain c cs where t: "t = c # cs" by (cases t) auto
  with assms have c: "is_digit c" by simp
  then have "\<not> is_ws c" by (rule digit_not_ws)
  moreover from c have "c \<noteq> 43" "c \<noteq> 45" by (auto simp: is_digit_def)
  moreover from assms have "takeWhile is_digit t = t" by (simp add: list_all_iff)
  ultimately show ?thesis
    using t by (simp add: parseInt_def is_radix_digit_10)
qed

lemma detectTimestamp_eq:
  "detectTimestamp input =
     Inr (case spec_timestamp (trim input) of
            None \<Rightarrow> None
          | Some ms \<Rightarrow> Some \<lparr>type = TTimestamp, confidence = 9 / 10, raw = input,
                             parsed = Some (ParsedEpoch ms)\<rparr>)"
proof (cases "rx_test_anchored EPOCH_REGEX (trim input)")
  case True
  then have d: "list_all is_digit (trim input)" and l: "10 \<le> length (trim input)"
    by (simp_all add: EPOCH_REGEX_iff)
  from l have "trim input \<noteq> []" by auto
  with d have "parseInt (trim input) 10 = Some (int (digits_value 10 (trim input)))"
    by (rule parseInt_digits)
  with True d show ?thesis
    by (simp add: detectTimestamp_def spec_timestamp_def Let_def)
next
  case False
  then have "\<not> (list_all is_digit (trim input) \<and> length (trim input) = 10)"
    "\<not> (list_all is_digit (trim input) \<and> length (trim input) = 13)"
    by (auto simp: EPOCH_REGEX_iff)
  with False show ?thesis
    by (auto simp: detectTimestamp_def spec_timestamp_def Let_def)
qed

lemma digits_pass_earlier_detectors:
  assumes d: "list_all is_digit (trim input)" and ne: "trim input \<noteq> []"
  shows "detectJwt input = Inr None" "detectUuid input = Inr None"
    "detectJson input = Inr None" "detectColor input = Inr None"
proof -
  have digit: "is_digit x" if "x \<in> set (trim input)" for x
    using d that by (simp add: list_all_iff)
  have "\<not> rx_test_anchored JWT_REGEX (trim input)"
    by (rule JWT_needs_dot, drule digit, simp add: is_digit_def)
  then show "detectJwt input = Inr None"
    by (simp add: detectJwt_def)
  have "\<not> rx_test_anchored UUID_REGEX (trim input)"
    by (rule UUID_needs_hyphen, drule digit, simp add: is_digit_def)
  then show "detectUuid input = Inr None"
    by (simp add: detectUuid_def)
  from ne obtain c cs where t: "trim input = c # cs" by (cases "trim input") auto
  with digit[of c] have "c \<noteq> 123" "c \<noteq> 91" by (auto simp: is_digit_def)
  with t show "detectJson input = Inr None"
    by (simp add: detectJson_def js_def)
  have "\<not> rx_test_anchored HEX_COLOR_REGEX (trim input)"
    by (rule HEX_COLOR_needs_hash, drule digit, simp add: is_digit_def)
  moreover have "\<not> rx_test_anchored RGB_COLOR_REGEX (trim input)"
    by (rule RGB_COLOR_needs_r, drule digit, simp add: is_digit_def)
  moreover have "\<not> rx_test_anchored HSL_COLOR_REGEX (trim input)"
    by (rule HSL_COLOR_needs_h, drule digit, simp add: is_digit_def)
  ultimately show "detectColor input = Inr None"
    by (simp add: detectColor_def)
qed

lemma spec_timestamp_Some:
  "spec_timestamp t = Some ms \<Longrightarrow> list_all is_digit t \<and> t \<noteq> []"
  by (auto simp: spec_timestamp_def split: if_splits)

text \<open>
  Claim C4. \<^verbatim>\<open>detect\<close> classifies an input as a timestamp exactly when its trimmed form
  is a timestamp in the sense of the specification, and then the parsed field is the epoch
  in milliseconds.
\<close>

theorem timestamp_detection:
  "(case spec_timestamp (trim input) of
      Some ms \<Rightarrow> detect (Str input) = Inr \<lparr>type = TTimestamp, confidence = 9 / 10, raw = input,
                                           parsed = Some (ParsedEpoch ms)\<rparr>
    | None \<Rightarrow> (\<exists>r. detect (Str input) = Inr r \<and> type r \<noteq> TTimestamp))"
proof (cases "spec_timestamp (trim input)")
  case None
  obtain r where r: "detect (Str input) = Inr r"
    using detect_total by blast
  have "type r \<noteq> TTimestamp"
  proof
    assume "type r = TTimestamp"
    with r have "detectTimestamp input = Inr (Some r)" by (rule detect_timestamp_source)
    with None show False by (simp add: detectTimestamp_eq)
  qed
  with r None show ?thesis by auto
next
  case (Some ms)
  from spec_timestamp_Some[OF Some] have d: "list_all is_digit (trim input)"
    and ne: "trim input \<noteq> []" by simp_all
  from ne have "input \<noteq> []" using trim_Nil by auto
  moreover have "detectTimestamp input = Inr (Some \<lparr>type = TTimestamp, confidence = 9 / 10,
      raw = input, parsed = Some (ParsedEpoch ms)\<rparr>)"
    by (simp add: detectTimestamp_eq Some)
  moreover have "p input = Inr None"
    if "p \<in> set [detectJwt, detectUuid, detectJson, detectColor]" for p
    using that digits_pass_earlier_detectors[OF d ne] by auto
  ultimately have "detect (Str input) = Inr \<lparr>type = TTimestamp, confidence = 9 / 10,
      raw = input, parsed = Some (ParsedEpoch ms)\<rparr>"
    using detect_from[OF detectors_at_timestamp] by blast
  with Some show ?thesis by simp
qed

theorem timestamp_detection_examples:
  "detect (Str (js ''1700000000'')) =
     Inr \<lparr>type = TTimestamp, confidence = 9 / 10, raw = js ''1700000000'',
          parsed = Some (ParsedEpoch 1700000000000)\<rparr>
   \<and> detect (Str (js ''1700000000000'')) =
     Inr \<lparr>type = TTimestamp, confidence = 9 / 10, raw = js ''1700000000000'',
          parsed = Some (ParsedEpoch 1700000000000)\<rparr>
   \<and> (\<exists>r. detect (Str (js ''99999999999999'')) = Inr r \<and> type r \<noteq> TTimestamp)"
proof -
  have a: "spec_timestamp (trim (js ''1700000000'')) = Some 1700000000000"
    by code_simp
  have b: "spec_timestamp (trim (js ''1700000000000'')) = Some 1700000000000"
    by code_simp
  have c: "spec_timestamp (trim (js ''99999999999999'')) = None"
    by code_simp
  show ?thesis
    using timestamp_detection[of "js ''1700000000''"] timestamp_detection[of "js ''1700000000000''"]
      timestamp_detection[of "js ''99999999999999''"]
    unfolding a b c by simp
qed

subsection \<open>URL-encoded input\<close>

lemma detect_source:
  assumes "detect (Str input) = Inr r" and "type r \<noteq> TText" and "detectors = pre @ d # post"
    and "\<And>p r'. p \<in> set pre \<union> set post \<Longrightarrow> p input = Inr (Some r') \<Longrightarrow> type r' \<noteq> type r"
  shows "(\<forall>p \<in> set pre. p input = Inr None) \<and> d input = Inr (Some r)"
proof -
  from detect_typed[OF assms(1,2)]
  have "first_result (pre @ d # post) input = Inr (Some r)" by (simp add: assms(3))
  then show ?thesis
    using first_result_split assms(4) by blast
qed

lemma detect_url_source:
  assumes "detect (Str input) = Inr r" and "type r = TUrl"
  shows "detectUrlEncoded input = Inr (Some r)"
proof -
  have "type r' \<noteq> type r"
    if "p \<in> set [detectJwt, detectUuid, detectJson, detectColor, detectTimestamp, detectNumber]
          \<union> set [detectBase64, detectHtml, detectCss, detectJavaScript]"
      and "p input = Inr (Some r')" for p r'
    using that assms(2) by (auto dest: detector_type)
  with detect_source[OF assms(1) _ detectors_at_url] assms(2) show ?thesis by simp
qed

lemma has_stray_percent_Cons:
  "has_stray_percent (c # cs) \<longleftrightarrow> stray_percent (c # cs) \<or> has_stray_percent cs"
  by (simp add: has_stray_percent_def)

lemma has_stray_percent_Nil: "\<not> has_stray_percent []"
  by (simp add: has_stray_percent_def stray_percent_def)

lemma hex_not_percent: "is_hex a \<Longrightarrow> a \<noteq> 37"
  by (auto simp: is_hex_def is_digit_def)

lemma has_stray_percent_escape:
  assumes "hex_octet cs = Some b"
  shows "has_stray_percent (37 # cs) = has_stray_percent (drop 2 cs)"
proof -
  from assms obtain a1 a2 rest where cs: "cs = a1 # a2 # rest" and h: "is_hex a1" "is_hex a2"
    by (auto simp: hex_octet_def split: list.splits if_splits)
  from h have "a1 \<noteq> 37" "a2 \<noteq> 37" by (simp_all add: hex_not_percent)
  with cs assms show ?thesis
    by (simp add: has_stray_percent_Cons stray_percent_def)
qed

lemma cont_octets_no_stray:
  "cont_octets k s = Some bs \<Longrightarrow> has_stray_percent s = has_stray_percent (drop (3 * k) s)"
proof (induction k arbitrary: s bs)
  case 0
  then show ?case by simp
next
  case (Suc k)
  from Suc.prems obtain cs b bs' where s: "s = 37 # cs" and b: "hex_octet cs = Some b"
    and rest: "cont_octets k (drop 2 cs) = Some bs'"
    by (subst (asm) cont_octets.simps) (auto split: list.splits if_splits option.splits)
  have "has_stray_percent s = has_stray_percent (drop 2 cs)"
    unfolding s using b by (rule has_stray_percent_escape)
  also have "\<dots> = has_stray_percent (drop (3 * k) (drop 2 cs))"
    using rest by (rule Suc.IH)
  also have "drop (3 * k) (drop 2 cs) = drop (3 * Suc k) s"
  proof -
    have "3 * Suc k = Suc (Suc (Suc (3 * k)))" by simp
    then show ?thesis by (simp only: s drop_Suc_Cons drop_drop) simp
  qed
  finally show ?case .
qed

lemma decode_no_stray:
  "decodeURIComponent s = Inr d \<Longrightarrow> \<not> has_stray_percent s"
proof (induction s arbitrary: d rule: decodeURIComponent.induct)
  case 1
  show ?case by (rule has_stray_percent_Nil)
next
  case (2 c cs)
  show ?case
  proof (cases "c = 37")
    case False
    with "2.prems" obtain d' where "decodeURIComponent cs = Inr d'"
      by (cases "decodeURIComponent cs") auto
    from "2.IH"(1)[OF False this] False show ?thesis
      by (simp add: has_stray_percent_Cons stray_percent_def)
  next
    case True
    with "2.prems" obtain b where b: "hex_octet cs = Some b"
      by (cases "hex_octet cs") auto
    from True have nn: "\<not> c \<noteq> 37" by simp
    define n where "n = leading_ones b"
    have stray: "has_stray_percent (c # cs) = has_stray_percent (drop 2 cs)"
      unfolding True using b by (rule has_stray_percent_escape)
    show ?thesis
    proof (cases "n = 0")
      case z: True
      with "2.prems" True b obtain d' where "decodeURIComponent (drop 2 cs) = Inr d'"
        by (cases "decodeURIComponent (drop 2 cs)") (auto simp: n_def)
      from "2.IH"(2)[OF nn b n_def z this] stray show ?thesis by simp
    next
      case nz: False
      with "2.prems" True b have range: "\<not> (n = 1 \<or> 4 < n)"
        by (auto simp: n_def Let_def)
      with "2.prems" True b nz obtain bs where bs: "cont_octets (n - 1) (drop 2 cs) = Some bs"
        by (cases "cont_octets (n - 1) (drop 2 cs)") (auto simp: n_def Let_def)
      with "2.prems" True b nz range obtain v where v: "utf8_decode (b # bs) = Some v"
        by (cases "utf8_decode (b # bs)") (auto simp: n_def Let_def)
      with "2.prems" True b nz range bs obtain d' where
        d': "decodeURIComponent (drop (2 + 3 * (n - 1)) cs) = Inr d'"
        by (cases "decodeURIComponent (drop (2 + 3 * (n - 1)) cs)") (auto simp: n_def Let_def)
      from "2.IH"(3)[OF nn b n_def nz range bs v d']
      have "\<not> has_stray_percent (drop (2 + 3 * (n - 1)) cs)" .
      moreover from cont_octets_no_stray[OF bs]
      have "has_stray_percent (drop 2 cs) = has_stray_percent (drop (2 + 3 * (n - 1)) cs)"
        by (simp add: add.commute)
      ultimately show ?thesis using stray by simp
    qed
  qed
qed

lemma count_escapes_Cons:
  "count_escapes (c # cs) = (if starts_escape (c # cs) then 1 else 0) + count_escapes cs"
  by (simp add: count_escapes_def)

lemma percent_count_escapes:
  "\<not> has_stray_percent s \<Longrightarrow> length (filter (\<lambda>c. c = 37) s) = count_escapes s"
proof (induction s)
  case Nil
  then show ?case by (simp add: count_escapes_def starts_escape_def)
next
  case (Cons c cs)
  then show ?case
    by (auto simp: has_stray_percent_Cons count_escapes_Cons stray_percent_def starts_escape_def)
qed

lemma detectUrlEncoded_Some:
  assumes "detectUrlEncoded input = Inr (Some r)"
  shows "2 \<le> length (filter (\<lambda>c. c = 37) (trim input))
         \<and> (\<exists>d. decodeURIComponent (trim input) = Inr d \<and> d \<noteq> trim input)"
  using assms unfolding detectUrlEncoded_def Let_def
  by (auto simp: try_catch_Some bind_Inr cu_simps split: if_splits)

lemma detectUrlEncoded_None:
  assumes "(\<exists>e. decodeURIComponent (trim input) = Inl e)
           \<or> decodeURIComponent (trim input) = Inr (trim input)"
  shows "detectUrlEncoded input = Inr None"
  using assms unfolding detectUrlEncoded_def Let_def
  by (auto simp: try_catch_def bind_def)

text \<open>
  Claim C8. \<^verbatim>\<open>detect\<close> classifies an input as URL-encoded only when its trimmed form
  contains at least two literal escape sequences and \<^verbatim>\<open>decodeURIComponent\<close> succeeds and
  changes it; an input with a stray percent sign, with a failing decode or with an unchanged
  decode gets no result from the URL detector and is not classified \<^verbatim>\<open>url\<close>.
\<close>

theorem url_encoded_detection:
  "(detect (Str input) = Inr r \<and> type r = TUrl \<longrightarrow>
      2 \<le> count_escapes (trim input)
      \<and> (\<exists>d. decodeURIComponent (trim input) = Inr d \<and> d \<noteq> trim input))
   \<and> (has_stray_percent (trim input)
        \<or> (\<exists>e. decodeURIComponent (trim input) = Inl e)
        \<or> decodeURIComponent (trim input) = Inr (trim input) \<longrightarrow>
      detectUrlEncoded input = Inr None
      \<and> (\<exists>r'. detect (Str input) = Inr r' \<and> type r' \<noteq> TUrl))"
proof (intro conjI impI)
  assume a: "detect (Str input) = Inr r \<and> type r = TUrl"
  then have "detectUrlEncoded input = Inr (Some r)" by (simp add: detect_url_source)
  from detectUrlEncoded_Some[OF this] obtain d where
    n: "2 \<le> length (filter (\<lambda>c. c = 37) (trim input))"
    and d: "decodeURIComponent (trim input) = Inr d" "d \<noteq> trim input" by blast
  from d(1) have "\<not> has_stray_percent (trim input)" by (rule decode_no_stray)
  with n show "2 \<le> count_escapes (trim input)" by (simp add: percent_count_escapes)
  from d show "\<exists>d. decodeURIComponent (trim input) = Inr d \<and> d \<noteq> trim input" by blast
next
  assume a: "has_stray_percent (trim input)
        \<or> (\<exists>e. decodeURIComponent (trim input) = Inl e)
        \<or> decodeURIComponent (trim input) = Inr (trim input)"
  have fail: "(\<exists>e. decodeURIComponent (trim input) = Inl e)
           \<or> decodeURIComponent (trim input) = Inr (trim input)"
  proof (cases "decodeURIComponent (trim input)")
    case (Inl e)
    then show ?thesis by simp
  next
    case (Inr d)
    then have "\<not> has_stray_percent (trim input)" by (rule decode_no_stray)
    with a Inr show ?thesis by simp
  qed
  then show none: "detectUrlEncoded input = Inr None" by (rule detectUrlEncoded_None)
  obtain r' where r': "detect (Str input) = Inr r'" using detect_total by blast
  have "type r' \<noteq> TUrl"
  proof
    assume "type r' = TUrl"
    with r' have "detectUrlEncoded input = Inr (Some r')" by (rule detect_url_source)
    with none show False by simp
  qed
  with r' show "\<exists>r'. detect (Str input) = Inr r' \<and> type r' \<noteq> TUrl" by blast
qed

theorem url_encoded_detection_witness:
  "detect (Str url_sample)
     = Inr \<lparr>type = TUrl, confidence = 9 / 10, raw = url_sample,
            parsed = Some (ParsedString (js ''hello world!''))\<rparr>
   \<and> 2 \<le> count_escapes (trim url_sample)
   \<and> (\<exists>d. decodeURIComponent (trim url_sample) = Inr d \<and> d \<noteq> trim url_sample)
   \<and> has_stray_percent (trim stray_sample)
   \<and> detectUrlEncoded stray_sample = Inr None
   \<and> (\<exists>r'. detect (Str stray_sample) = Inr r' \<and> type r' \<noteq> TUrl)"
proof -
  let ?r = "\<lparr>type = TUrl, confidence = 9 / 10, raw = url_sample,
            parsed = Some (ParsedString (js ''hello world!''))\<rparr>"
  have a: "detect (Str url_sample) = Inr ?r" by code_simp
  have b: "has_stray_percent (trim stray_sample)" by code_simp
  from url_encoded_detection[of url_sample ?r] a
  have "2 \<le> count_escapes (trim url_sample)
      \<and> (\<exists>d. decodeURIComponent (trim url_sample) = Inr d \<and> d \<noteq> trim url_sample)"
    by simp
  moreover from url_encoded_detection[of stray_sample ?r] b
  have "detectUrlEncoded stray_sample = Inr None
      \<and> (\<exists>r'. detect (Str stray_sample) = Inr r' \<and> type r' \<noteq> TUrl)"
    by simp
  ultimately show ?thesis using a b by simp
qed

subsection \<open>Base64 input\<close>

text \<open>
  Claim C5 as stated fails twice: an input that decodes to exactly 80% printable characters
  is not base64 for the code, and an input that meets every condition of the claim is a number
  when it is also a hexadecimal literal, since the number detector runs first.
\<close>

theorem base64_detection_counterexample:
  "spec_base64 (trim eighty_percent_sample)
   \<and> detect (Str eighty_percent_sample)
       = Inr \<lparr>type = TText, confidence = 1 / 2, raw = eighty_percent_sample, parsed = None\<rparr>
   \<and> spec_base64 (trim hex_literal_sample)
   \<and> map_sum id type (detect (Str hex_literal_sample)) = Inr TNumber"
  by code_simp

lemma first_result_None_iff:
  "first_result ds input = Inr None \<longleftrightarrow> (\<forall>p \<in> set ds. p input = Inr None)"
  by (induction ds) (auto split: sum.splits option.splits)

lemma detect_base64_source:
  assumes "detect (Str input) = Inr r" and "type r = TBase64"
  shows "(\<forall>p \<in> set [detectJwt, detectUuid, detectJson, detectColor, detectTimestamp,
            detectNumber, detectUrlEncoded]. p input = Inr None)
         \<and> detectBase64 input = Inr (Some r)"
proof -
  have "type r' \<noteq> type r"
    if "p \<in> set [detectJwt, detectUuid, detectJson, detectColor, detectTimestamp, detectNumber,
                  detectUrlEncoded] \<union> set [detectHtml, detectCss, detectJavaScript]"
      and "p input = Inr (Some r')" for p r'
    using that assms(2) by (auto dest: detector_type)
  with detect_source[OF assms(1) _ detectors_at_base64] assms(2) show ?thesis by simp
qed

lemma detectBase64_iff:
  "(\<exists>r. detectBase64 input = Inr (Some r)) \<longleftrightarrow>
     32 \<le> length (trim input) \<and> base64_shape (trim input)
     \<and> (\<exists>d. atob (from_url_safe (trim input)) = Inr d
              \<and> 4 * length d < 5 * length (filter is_printable d))"
proof
  assume "\<exists>r. detectBase64 input = Inr (Some r)"
  then obtain r where "detectBase64 input = Inr (Some r)" by blast
  then show "32 \<le> length (trim input) \<and> base64_shape (trim input)
     \<and> (\<exists>d. atob (from_url_safe (trim input)) = Inr d
              \<and> 4 * length d < 5 * length (filter is_printable d))"
    unfolding detectBase64_def Let_def base64_shape_def
    by (auto simp: try_catch_Some bind_Inr split: if_splits)
next
  assume a: "32 \<le> length (trim input) \<and> base64_shape (trim input)
     \<and> (\<exists>d. atob (from_url_safe (trim input)) = Inr d
              \<and> 4 * length d < 5 * length (filter is_printable d))"
  then obtain d where d: "atob (from_url_safe (trim input)) = Inr d"
    "4 * length d < 5 * length (filter is_printable d)" by blast
  from a have "\<not> length (trim input) < 32" by simp
  moreover from a have "\<not> (\<not> rx_test_anchored BASE64_REGEX (trim input)
      \<and> \<not> rx_test_anchored BASE64_URL_SAFE_REGEX (trim input))"
    by (simp add: base64_shape_def)
  ultimately have "detectBase64 input = Inr (Some \<lparr>type = TBase64, confidence = 17 / 20,
      raw = input, parsed = Some (ParsedString d)\<rparr>)"
    using d by (simp add: detectBase64_def Let_def try_catch_def bind_def)
  then show "\<exists>r. detectBase64 input = Inr (Some r)" by blast
qed

lemma length_trim_le: "length (trim s) \<le> length s"
proof -
  have "length (trim s) \<le> length (dropWhile is_ws s)"
    unfolding trim_def using length_dropWhile_le [of is_ws "rev (dropWhile is_ws s)"] by simp
  also have "\<dots> \<le> length s" by (rule length_dropWhile_le)
  finally show ?thesis .
qed

text \<open>
  Claim C5, amended. \<^verbatim>\<open>detect\<close> classifies an input as base64 exactly when no earlier
  detector gives a result for it, its trimmed form has at least 32 characters of the base64
  or of the URL-safe class and decodes, and strictly more than 80% of the decoded characters
  are printable. A string of 20 letters and digits is never classified base64.
\<close>

theorem base64_detection:
  "((\<exists>r. detect (Str input) = Inr r \<and> type r = TBase64) \<longleftrightarrow>
      first_result [detectJwt, detectUuid, detectJson, detectColor, detectTimestamp,
                    detectNumber, detectUrlEncoded] input = Inr None
      \<and> 32 \<le> length (trim input) \<and> base64_shape (trim input)
      \<and> (\<exists>d. atob (from_url_safe (trim input)) = Inr d
               \<and> 4 * length d < 5 * length (filter is_printable d)))
   \<and> (length input = 20 \<and> list_all is_alnum input \<longrightarrow>
        (\<exists>r. detect (Str input) = Inr r \<and> type r \<noteq> TBase64))"
proof (rule conjI)
  show "(\<exists>r. detect (Str input) = Inr r \<and> type r = TBase64) \<longleftrightarrow>
      first_result [detectJwt, detectUuid, detectJson, detectColor, detectTimestamp,
                    detectNumber, detectUrlEncoded] input = Inr None
      \<and> 32 \<le> length (trim input) \<and> base64_shape (trim input)
      \<and> (\<exists>d. atob (from_url_safe (trim input)) = Inr d
               \<and> 4 * length d < 5 * length (filter is_printable d))"
  proof (rule iffI)
  assume "\<exists>r. detect (Str input) = Inr r \<and> type r = TBase64"
  then obtain r where r: "detect (Str input) = Inr r" "type r = TBase64" by blast
  from detect_base64_source[OF r]
  have pre: "\<forall>p \<in> set [detectJwt, detectUuid, detectJson, detectColor, detectTimestamp,
            detectNumber, detectUrlEncoded]. p input = Inr None"
    and b: "\<exists>r. detectBase64 input = Inr (Some r)" by blast+
  from pre have "first_result [detectJwt, detectUuid, detectJson, detectColor, detectTimestamp,
                    detectNumber, detectUrlEncoded] input = Inr None"
    by (simp only: first_result_None_iff)
  with b [unfolded detectBase64_iff]
  show "first_result [detectJwt, detectUuid, detectJson, detectColor, detectTimestamp,
                    detectNumber, detectUrlEncoded] input = Inr None
      \<and> 32 \<le> length (trim input) \<and> base64_shape (trim input)
      \<and> (\<exists>d. atob (from_url_safe (trim input)) = Inr d
               \<and> 4 * length d < 5 * length (filter is_printable d))"
    by blast
next
  assume a: "first_result [detectJwt, detectUuid, detectJson, detectColor, detectTimestamp,
                    detectNumber, detectUrlEncoded] input = Inr None
      \<and> 32 \<le> length (trim input) \<and> base64_shape (trim input)
      \<and> (\<exists>d. atob (from_url_safe (trim input)) = Inr d
               \<and> 4 * length d < 5 * length (filter is_printable d))"
  then have "\<exists>r. detectBase64 input = Inr (Some r)"
    unfolding detectBase64_iff by blast
  then obtain r where r: "detectBase64 input = Inr (Some r)" by blast
  from a have pre: "\<And>p. p \<in> set [detectJwt, detectUuid, detectJson, detectColor,
      detectTimestamp, detectNumber, detectUrlEncoded] \<Longrightarrow> p input = Inr None"
    unfolding first_result_None_iff by blast
  from a have "trim input \<noteq> []" by auto
  then have "input \<noteq> []" using trim_Nil by auto
  with pre r have "detect (Str input) = Inr r"
    using detect_from[OF detectors_at_base64] by blast
  moreover from r have "type r = TBase64" by (rule detectBase64_type)
  ultimately show "\<exists>r. detect (Str input) = Inr r \<and> type r = TBase64" by blast
  qed
next
  show "length input = 20 \<and> list_all is_alnum input \<longrightarrow>
        (\<exists>r. detect (Str input) = Inr r \<and> type r \<noteq> TBase64)"
  proof (rule impI)
  assume a: "length input = 20 \<and> list_all is_alnum input"
  obtain r where r: "detect (Str input) = Inr r" using detect_total by blast
  have "type r \<noteq> TBase64"
  proof
    assume "type r = TBase64"
    with r have "\<exists>r. detectBase64 input = Inr (Some r)"
      using detect_base64_source by blast
    then have "32 \<le> length (trim input)" unfolding detectBase64_iff by blast
    with length_trim_le[of input] a show False by simp
  qed
  with r show "\<exists>r. detect (Str input) = Inr r \<and> type r \<noteq> TBase64" by blast
  qed
qed

theorem base64_detection_witness:
  "(\<exists>r. detect (Str base64_sample) = Inr r \<and> type r = TBase64)
   \<and> (\<exists>r. detect (Str (js ''abcdefghij0123456789'')) = Inr r \<and> type r \<noteq> TBase64)"
proof -
  have a: "first_result [detectJwt, detectUuid, detectJson, detectColor, detectTimestamp,
                    detectNumber, detectUrlEncoded] base64_sample = Inr None"
    by code_simp
  have b: "32 \<le> length (trim base64_sample) \<and> base64_shape (trim base64_sample)"
    by code_simp
  have c: "atob (from_url_safe (trim base64_sample)) = Inr (js ''Hello World! This is a test message.'')
     \<and> 4 * length (js ''Hello World! This is a test message.'')
         < 5 * length (filter is_printable (js ''Hello World! This is a test message.''))"
    by code_simp
  have d: "length (js ''abcdefghij0123456789'') = 20 \<and> list_all is_alnum (js ''abcdefghij0123456789'')"
    by code_simp
  from base64_detection[of base64_sample] a b c
  have "\<exists>r. detect (Str base64_sample) = Inr r \<and> type r = TBase64" by blast
  moreover from base64_detection[of "js ''abcdefghij0123456789''"] d
  have "\<exists>r. detect (Str (js ''abcdefghij0123456789'')) = Inr r \<and> type r \<noteq> TBase64" by blast
  ultimately show ?thesis by blast
qed

subsection \<open>Colors\<close>

lemma concat_map_snd:
  assumes "\<And>c s. (c, s) \<in> set xs \<Longrightarrow> map snd (f c s) = g s"
  shows "map snd (concat (map (\<lambda>(c, s). f c s) xs)) = concat (map g (map snd xs))"
  using assms by (induction xs) auto

lemma filter_map_snd:
  "map snd (filter (\<lambda>(c, s'). P s') xs) = filter P (map snd xs)"
  by (induction xs) auto

lemma rx_run_rests: "map snd (rx_run r c s) = rx_rests r s"
proof (induction r c s rule: rx_run.induct)
  case (1 caps s)
  then show ?case by simp
next
  case (2 P caps s)
  then show ?case by (cases s) auto
next
  case (3 a b caps s)
  have "map snd (concat (map (\<lambda>(c, s). rx_run b c s) (rx_run a caps s)))
      = concat (map (rx_rests b) (map snd (rx_run a caps s)))"
    by (rule concat_map_snd) (use "3.IH"(2) in auto)
  with "3.IH"(1) show ?case by simp
next
  case (4 a b caps s)
  then show ?case by simp
next
  case (5 a caps s)
  let ?xs = "filter (\<lambda>(c, s'). length s' < length s) (rx_run a caps s)"
  have "map snd (concat (map (\<lambda>(c, s). rx_run (Star a) c s) ?xs))
      = concat (map (rx_rests (Star a)) (map snd ?xs))"
    by (rule concat_map_snd) (use "5.IH"(2) in auto)
  moreover have "map snd ?xs = filter (\<lambda>s'. length s' < length s) (rx_rests a s)"
    by (simp only: filter_map_snd "5.IH"(1))
  ultimately show ?case
    by (simp add: rx_run.simps(5)[of a caps s] rx_rests.simps(5)[of a s])
next
  case (6 a caps s)
  let ?xs = "filter (\<lambda>(c, s'). length s' < length s) (rx_run a caps s)"
  have "map snd (concat (map (\<lambda>(c, s). rx_run (LazyStar a) c s) ?xs))
      = concat (map (rx_rests (LazyStar a)) (map snd ?xs))"
    by (rule concat_map_snd) (use "6.IH"(2) in auto)
  moreover have "map snd ?xs = filter (\<lambda>s'. length s' < length s) (rx_rests a s)"
    by (simp only: filter_map_snd "6.IH"(1))
  ultimately show ?case
    by (simp add: rx_run.simps(6)[of a caps s] rx_rests.simps(6)[of a s])
next
  case (7 i a caps s)
  have "map snd (map (\<lambda>(caps', s'). ((i, take (length s - length s') s) # caps', s'))
      (rx_run a caps s)) = map snd (rx_run a caps s)"
    by (induction "rx_run a caps s") auto
  with "7.IH" show ?case by simp
next
  case (8 caps s)
  then show ?case by simp
qed

lemma rx_test_anchored_rests: "rx_test_anchored r s \<longleftrightarrow> rx_rests r s \<noteq> []"
  unfolding rx_test_anchored_def rx_run_rests[of r "[]" s, symmetric] by simp

lemma rx_match_anchored_rests: "rx_match_anchored r s \<noteq> None \<longleftrightarrow> rx_rests r s \<noteq> []"
  unfolding rx_match_anchored_def rx_run_rests[of r "[]" s, symmetric]
  by (cases "rx_run r [] s") auto

lemma rx_rests_strip: "rx_rests (strip_groups r) s = rx_rests r s"
proof (induction r s rule: rx_rests.induct)
  case (3 a b s)
  have m: "map (rx_rests (strip_groups b)) (rx_rests a s) = map (rx_rests b) (rx_rests a s)"
    by (rule map_cong) (use "3.IH"(2) in auto)
  show ?case
    by (simp only: strip_groups.simps rx_rests.simps(3) "3.IH"(1) m)
next
  case (5 a s)
  let ?xs = "filter (\<lambda>s'. length s' < length s) (rx_rests a s)"
  have m: "map (rx_rests (Star (strip_groups a))) ?xs = map (rx_rests (Star a)) ?xs"
    by (rule map_cong) (use "5.IH"(2) in auto)
  have "rx_rests (strip_groups (Star a)) s
      = concat (map (rx_rests (Star (strip_groups a)))
          (filter (\<lambda>s'. length s' < length s) (rx_rests (strip_groups a) s))) @ [s]"
    by (simp only: strip_groups.simps rx_rests.simps(5)[of "strip_groups a" s])
  also have "\<dots> = concat (map (rx_rests (Star a)) ?xs) @ [s]"
    by (simp only: "5.IH"(1) m)
  also have "\<dots> = rx_rests (Star a) s"
    by (simp only: rx_rests.simps(5)[of a s])
  finally show ?case .
next
  case (6 a s)
  let ?xs = "filter (\<lambda>s'. length s' < length s) (rx_rests a s)"
  have m: "map (rx_rests (LazyStar (strip_groups a))) ?xs = map (rx_rests (LazyStar a)) ?xs"
    by (rule map_cong) (use "6.IH"(2) in auto)
  have "rx_rests (strip_groups (LazyStar a)) s
      = s # concat (map (rx_rests (LazyStar (strip_groups a)))
          (filter (\<lambda>s'. length s' < length s) (rx_rests (strip_groups a) s)))"
    by (simp only: strip_groups.simps rx_rests.simps(6)[of "strip_groups a" s])
  also have "\<dots> = s # concat (map (rx_rests (LazyStar a)) ?xs)"
    by (simp only: "6.IH"(1) m)
  also have "\<dots> = rx_rests (LazyStar a) s"
    by (simp only: rx_rests.simps(6)[of a s])
  finally show ?case .
qed simp_all

lemma strip_groups_seqs: "strip_groups (seqs rs) = seqs (map strip_groups rs)"
  by (induction rs) (simp_all add: seqs_def)

lemma rgb_patterns_agree: "strip_groups RGB_COLOR_REGEX = strip_groups PARSE_RGB_REGEX"
  by (simp add: RGB_COLOR_REGEX_def PARSE_RGB_REGEX_def strip_groups_seqs Opt_def)

lemma hsl_patterns_agree: "strip_groups HSL_COLOR_REGEX = strip_groups PARSE_HSL_REGEX"
  by (simp add: HSL_COLOR_REGEX_def PARSE_HSL_REGEX_def strip_groups_seqs Opt_def)

lemma rgb_detected_parses:
  "rx_test_anchored RGB_COLOR_REGEX t \<Longrightarrow> rx_match_anchored PARSE_RGB_REGEX t \<noteq> None"
  unfolding rx_test_anchored_rests rx_match_anchored_rests
  using rx_rests_strip[of RGB_COLOR_REGEX t] rx_rests_strip[of PARSE_RGB_REGEX t]
  by (simp add: rgb_patterns_agree)

lemma hsl_detected_parses:
  "rx_test_anchored HSL_COLOR_REGEX t \<Longrightarrow> rx_match_anchored PARSE_HSL_REGEX t \<noteq> None"
  unfolding rx_test_anchored_rests rx_match_anchored_rests
  using rx_rests_strip[of HSL_COLOR_REGEX t] rx_rests_strip[of PARSE_HSL_REGEX t]
  by (simp add: hsl_patterns_agree)

lemma alts3: "alts [a, b, c] = Alt a (Alt b c)"
  by (simp add: alts_def)

lemma rx_rests_rep_Cls:
  "rx_rests (rep n (Cls P)) s = (if n \<le> length (takeWhile P s) then [drop n s] else [])"
  unfolding rx_run_rests[of "rep n (Cls P)" "[]" s, symmetric] rx_run_rep_Cls by simp

lemma rep_Cls_to_end:
  assumes "[] \<in> set (rx_rests (rep n (Cls P)) s)"
  shows "length s = n \<and> list_all P s"
proof -
  from assms have n: "n \<le> length (takeWhile P s)" and d: "drop n s = []"
    by (auto simp: rx_rests_rep_Cls split: if_splits)
  have "length (takeWhile P s) \<le> length s" by (rule length_takeWhile_le)
  with n d have "length s = n" by simp
  moreover from this n have "list_all P s" by (intro takeWhile_whole) simp
  ultimately show ?thesis by simp
qed

lemma HEX_COLOR_REGEX_shape:
  assumes "rx_test_anchored HEX_COLOR_REGEX t"
  shows "\<exists>h. t = 35 # h \<and> list_all is_hex h \<and> (length h = 3 \<or> length h = 6 \<or> length h = 8)"
proof -
  from assms have ne: "rx_rests HEX_COLOR_REGEX t \<noteq> []"
    by (simp add: rx_test_anchored_rests)
  then obtain h where t: "t = 35 # h"
    by (cases t) (auto simp: HEX_COLOR_REGEX_def seqs_Cons chr_def cu_simps split: if_splits)
  with ne have "[] \<in> set (rx_rests (rep 3 (Cls is_hex)) h)
      \<or> [] \<in> set (rx_rests (rep 6 (Cls is_hex)) h) \<or> [] \<in> set (rx_rests (rep 8 (Cls is_hex)) h)"
    by (auto simp: HEX_COLOR_REGEX_def seqs_Cons seqs_Nil chr_def cu_simps alts3 hex_cls_def
        split: if_splits)
  then have "list_all is_hex h \<and> (length h = 3 \<or> length h = 6 \<or> length h = 8)"
    using rep_Cls_to_end by blast
  with t show ?thesis by blast
qed

lemma rx_run_SeqI:
  assumes "(c1, s1) \<in> set (rx_run a c s)" and "x \<in> set (rx_run b c1 s1)"
  shows "x \<in> set (rx_run (Seq a b) c s)"
proof -
  have "x \<in> (\<lambda>(c', s'). set (rx_run b c' s')) (c1, s1)" using assms(2) by simp
  with assms(1) have "x \<in> (\<Union>p \<in> set (rx_run a c s). (\<lambda>(c', s'). set (rx_run b c' s')) p)"
    by (rule UN_I)
  also have "\<dots> = set (rx_run (Seq a b) c s)"
    by (auto simp: split_def)
  finally show ?thesis .
qed

lemma head_of_constant_list:
  assumes "set xs = {v}"
  shows "\<exists>ys. xs = v # ys"
proof (cases xs)
  case Nil
  with assms show ?thesis by simp
next
  case (Cons x ys)
  with assms have "x = v" by auto
  with Cons show ?thesis by simp
qed

lemma PARSE_HEX_REGEX_run:
  assumes hex: "list_all is_hex h" and len: "3 \<le> length h" "length h \<le> 8"
  shows "set (rx_run PARSE_HEX_REGEX [] (35 # h)) = {([(1, h)], [])}"
proof -
  from hex have tw: "takeWhile is_hex h = h" by (simp add: list_all_iff)
  from hex have "list_all is_hex (drop 3 h)" by (auto simp: list_all_iff dest: in_set_dropD)
  then have tw3: "takeWhile is_hex (drop 3 h) = drop 3 h" by (simp add: list_all_iff)
  have l: "length (takeWhile is_hex h) = length h" by (simp only: tw)
  have l3: "length (takeWhile is_hex (drop 3 h)) = length h - 3" by (simp only: tw3 length_drop)
  have range: "set (rx_run (rep_range 3 8 (Cls is_hex)) [] h)
      = {([], drop (j + 3) h) | j. j \<le> 5 \<and> j \<le> length h - 3}"
    using len by (auto simp: rep_range_def rx_run_rep_Cls set_rx_run_upto_rep_Cls l l3)
  have "set (rx_run (Seq (Grp 1 (rep_range 3 8 (Cls is_hex))) (Seq Eoi Eps)) [] h)
      = {([(1, h)], [])}" (is "?L = ?R")
  proof
    show "?L \<subseteq> ?R"
    proof
      fix x assume "x \<in> ?L"
      then obtain j where j: "j \<le> 5" "j \<le> length h - 3" "drop (j + 3) h = []"
        and x: "x = ([(1, take (length h - length (drop (j + 3) h)) h)], [])"
        by (auto simp: range split: if_splits)
      from j(3) have "length (drop (j + 3) h) = 0" by simp
      with x show "x \<in> ?R" by simp
    qed
    show "?R \<subseteq> ?L"
    proof -
      have "([], drop (length h - 3 + 3) h) \<in> {([], drop (j + 3) h) | j. j \<le> 5 \<and> j \<le> length h - 3}"
        by (intro CollectI exI[of _ "length h - 3"]) (use len in simp)
      then have 1: "([], []) \<in> set (rx_run (rep_range 3 8 (Cls is_hex)) [] h)"
        unfolding range using len by simp
      have 2: "([(1, h)], []) \<in> set (rx_run (Grp 1 (rep_range 3 8 (Cls is_hex))) [] h)"
        unfolding rx_run.simps(7) set_map by (rule rev_image_eqI[OF 1]) simp
      have "([(1, h)], []) \<in> set (rx_run (Seq Eoi Eps) [(1, h)] [])"
        by simp
      with 2 have "([(1, h)], []) \<in> ?L"
        by (rule rx_run_SeqI)
      then show ?thesis by simp
    qed
  qed
  then show ?thesis
    by (simp add: PARSE_HEX_REGEX_def seqs_Cons seqs_Nil chr_def cu_simps hex_cls_def)
qed

lemma PARSE_HEX_REGEX_match:
  assumes "list_all is_hex h" and "3 \<le> length h" "length h \<le> 8"
  shows "rx_match_anchored PARSE_HEX_REGEX (35 # h) = Some [(1, h)]"
proof -
  from head_of_constant_list[OF PARSE_HEX_REGEX_run[OF assms]]
  obtain ys where "rx_run PARSE_HEX_REGEX [] (35 # h) = ([(1, h)], []) # ys" by blast
  then show ?thesis by (simp add: rx_match_anchored_def)
qed

lemma parseColor_hex:
  assumes "rx_test_anchored HEX_COLOR_REGEX (trim input)"
  shows "\<exists>rgb. parseColor input = Inr (Some rgb)"
proof -
  from HEX_COLOR_REGEX_shape[OF assms] obtain h where t: "trim input = 35 # h"
    and hex: "list_all is_hex h" and len: "length h = 3 \<or> length h = 6 \<or> length h = 8"
    by blast
  from len have "3 \<le> length h" "length h \<le> 8" by auto
  with hex have "rx_match_anchored PARSE_HEX_REGEX (trim input) = Some [(1, h)]"
    unfolding t by (rule PARSE_HEX_REGEX_match)
  with len show ?thesis
    by (auto simp: parseColor_def group_def)
qed

lemma parseColor_rgb:
  assumes "rx_test_anchored RGB_COLOR_REGEX (trim input)"
  shows "\<exists>rgb. parseColor input = Inr (Some rgb)"
proof -
  from rgb_detected_parses[OF assms] obtain m where
    m: "rx_match_anchored PARSE_RGB_REGEX (trim input) = Some m" by blast
  have "\<not> rx_test_anchored HEX_COLOR_REGEX (trim input) \<or> rx_test_anchored HEX_COLOR_REGEX (trim input)"
    by blast
  then show ?thesis
  proof
    assume "rx_test_anchored HEX_COLOR_REGEX (trim input)"
    then show ?thesis by (rule parseColor_hex)
  next
    assume no_hex: "\<not> rx_test_anchored HEX_COLOR_REGEX (trim input)"
    show ?thesis
    proof (cases "rx_match_anchored PARSE_HEX_REGEX (trim input)")
      case None
      with m show ?thesis by (simp add: parseColor_def)
    next
      case (Some hm)
      then have "rx_rests PARSE_HEX_REGEX (trim input) \<noteq> []"
        using rx_match_anchored_rests[of PARSE_HEX_REGEX "trim input"] by simp
      then obtain h where t: "trim input = 35 # h"
        by (cases "trim input")
          (auto simp: PARSE_HEX_REGEX_def seqs_Cons chr_def cu_simps split: if_splits)
      have "rx_rests (Cls (\<lambda>x. ascii_lower x = ascii_lower (cu CHR ''r''))) (35 # h) = []"
        by (simp add: cu_simps ascii_lower_def is_upper_def)
      then have "rx_rests RGB_COLOR_REGEX (35 # h) = []"
        by (simp add: RGB_COLOR_REGEX_def seqs_Cons lit_ci_def chr_ci_def del: rx_rests.simps(2))
      with assms t show ?thesis
        by (simp add: rx_test_anchored_rests)
    qed
  qed
qed

lemma parseColor_hsl:
  assumes "rx_test_anchored HSL_COLOR_REGEX (trim input)"
  shows "\<exists>rgb. parseColor input = Inr (Some rgb)"
proof (cases "rx_match_anchored PARSE_HEX_REGEX (trim input)")
  case None
  from hsl_detected_parses[OF assms] obtain m where
    "rx_match_anchored PARSE_HSL_REGEX (trim input) = Some m" by blast
  with None show ?thesis
    by (cases "rx_match_anchored PARSE_RGB_REGEX (trim input)") (simp_all add: parseColor_def)
next
  case (Some hm)
  then have "rx_rests PARSE_HEX_REGEX (trim input) \<noteq> []"
    using rx_match_anchored_rests[of PARSE_HEX_REGEX "trim input"] by simp
  then obtain h where t: "trim input = 35 # h"
    by (cases "trim input")
      (auto simp: PARSE_HEX_REGEX_def seqs_Cons chr_def cu_simps split: if_splits)
  have "rx_rests (Cls (\<lambda>x. ascii_lower x = ascii_lower (cu CHR ''h''))) (35 # h) = []"
    by (simp add: cu_simps ascii_lower_def is_upper_def)
  then have "rx_rests HSL_COLOR_REGEX (35 # h) = []"
    by (simp add: HSL_COLOR_REGEX_def seqs_Cons lit_ci_def chr_ci_def del: rx_rests.simps(2))
  with assms t show ?thesis
    by (simp add: rx_test_anchored_rests)
qed

lemma detect_color_source:
  assumes "detect (Str input) = Inr res" and "type res = TColor"
  shows "detectColor input = Inr (Some res)"
proof -
  have "type r' \<noteq> type res"
    if "p \<in> set [detectJwt, detectUuid, detectJson]
          \<union> set [detectTimestamp, detectNumber, detectUrlEncoded, detectBase64, detectHtml,
                 detectCss, detectJavaScript]"
      and "p input = Inr (Some r')" for p r'
    using that assms(2) by (auto dest: detector_type)
  with detect_source[OF assms(1) _ detectors_at_color] assms(2) show ?thesis by simp
qed

text \<open>
  Claim C10. Whenever \<^verbatim>\<open>detect\<close> classifies an input as a color, \<^verbatim>\<open>colorToFormats\<close>
  returns a bundle for it: it neither returns null nor throws, also for channel values out
  of range.
\<close>

theorem color_formats_defined:
  assumes "detect (Str input) = Inr res" and "type res = TColor"
  shows "\<exists>formats. colorToFormats host input = Inr (Some formats)"
proof -
  from assms have "detectColor input = Inr (Some res)" by (rule detect_color_source)
  then have "rx_test_anchored HEX_COLOR_REGEX (trim input)
      \<or> rx_test_anchored RGB_COLOR_REGEX (trim input)
      \<or> rx_test_anchored HSL_COLOR_REGEX (trim input)"
    by (auto simp: detectColor_def Let_def split: if_splits)
  then obtain rgb where "parseColor input = Inr (Some rgb)"
    using parseColor_hex parseColor_rgb parseColor_hsl by blast
  then show ?thesis
    by (simp add: colorToFormats_def bind_def Let_def)
qed

theorem color_formats_defined_witness:
  "detect (Str hex_color_sample)
     = Inr \<lparr>type = TColor, confidence = 1, raw = hex_color_sample, parsed = None\<rparr>
   \<and> (\<exists>formats. colorToFormats (\<lambda>R q. []) hex_color_sample = Inr (Some formats))
   \<and> detect (Str rgb_color_sample)
     = Inr \<lparr>type = TColor, confidence = 1, raw = rgb_color_sample, parsed = None\<rparr>
   \<and> (\<exists>formats. colorToFormats (\<lambda>R q. []) rgb_color_sample = Inr (Some formats))"
proof -
  have a: "detect (Str hex_color_sample)
     = Inr \<lparr>type = TColor, confidence = 1, raw = hex_color_sample, parsed = None\<rparr>"
    by code_simp
  have b: "detect (Str rgb_color_sample)
     = Inr \<lparr>type = TColor, confidence = 1, raw = rgb_color_sample, parsed = None\<rparr>"
    by code_simp
  from color_formats_defined[OF a, of "\<lambda>R q. []"] color_formats_defined[OF b, of "\<lambda>R q. []"] a b
  show ?thesis by simp
qed

subsection \<open>Text statistics\<close>

lemma rx_first_Cls:
  "rx_first (Cls P) s = (case s of [] \<Rightarrow> None | c # cs \<Rightarrow> if P c then Some cs else None)"
  by (cases s) (simp_all add: rx_first_def)

lemma rx_run_Star_Cls_head:
  "\<exists>ys. rx_run (Star (Cls P)) c s = (c, dropWhile P s) # ys"
proof (induction s)
  case Nil
  show ?case by (simp add: rx_run.simps(5))
next
  case (Cons x xs)
  show ?case
  proof (cases "P x")
    case True
    from Cons obtain ys where "rx_run (Star (Cls P)) c xs = (c, dropWhile P xs) # ys" by blast
    with True show ?thesis by (simp add: rx_run.simps(5)[of "Cls P" c "x # xs"])
  next
    case False
    then show ?thesis by (simp add: rx_run.simps(5)[of "Cls P" c "x # xs"])
  qed
qed

lemma rx_first_Plus_Cls:
  "rx_first (Plus (Cls P)) s
     = (case s of [] \<Rightarrow> None | c # cs \<Rightarrow> if P c then Some (dropWhile P cs) else None)"
proof (cases s)
  case Nil
  then show ?thesis by (simp add: rx_first_def Plus_def)
next
  case (Cons c cs)
  obtain ys where "rx_run (Star (Cls P)) [] cs = ([], dropWhile P cs) # ys"
    using rx_run_Star_Cls_head by blast
  with Cons show ?thesis by (simp add: rx_first_def Plus_def)
qed

lemma count_runs_in:
  "P c \<Longrightarrow> count_runs P (c # cs) = Suc (count_runs P (dropWhile P cs))"
proof (induction cs arbitrary: c)
  case Nil
  then show ?case by simp
next
  case (Cons d cs)
  then show ?case by (cases "P d") simp_all
qed

lemma count_runs_out: "\<not> P c \<Longrightarrow> count_runs P (c # cs) = count_runs P cs"
  by (cases cs) simp_all

lemma replace_ws:
  "replace_all (Cls P) [] s = filter (\<lambda>c. \<not> P c) s"
proof (induction s)
  case Nil
  show ?case by (simp add: replace_all.simps[of _ _ "[]"] rx_first_Cls)
next
  case (Cons c cs)
  then show ?case by (simp add: replace_all.simps[of _ _ "c # cs"] rx_first_Cls)
qed

lemma match_all_runs:
  "length (match_all (Plus (Cls P)) s) = count_runs P s"
proof (induction s rule: length_induct)
  case (1 s)
  show ?case
  proof (cases s)
    case Nil
    then show ?thesis by (simp add: match_all.simps[of _ "[]"] rx_first_Plus_Cls)
  next
    case (Cons c cs)
    show ?thesis
    proof (cases "P c")
      case True
      have "length (dropWhile P cs) < length s"
        using Cons length_dropWhile_le[of P cs] by simp
      with 1 have "length (match_all (Plus (Cls P)) (dropWhile P cs)) = count_runs P (dropWhile P cs)"
        by blast
      with True Cons length_dropWhile_le[of P cs] show ?thesis
        by (simp add: match_all.simps[of _ "c # cs"] rx_first_Plus_Cls count_runs_in le_imp_less_Suc)
    next
      case False
      from 1 Cons have "length (match_all (Plus (Cls P)) cs) = count_runs P cs" by simp
      with False Cons show ?thesis
        by (simp add: match_all.simps[of _ "c # cs"] rx_first_Plus_Cls count_runs_out)
    qed
  qed
qed

lemma split_loop_runs:
  "length (split_loop (Plus (Cls P)) piece s) = Suc (count_runs P s)"
proof (induction s arbitrary: piece rule: length_induct)
  case (1 s)
  show ?case
  proof (cases s)
    case Nil
    then show ?thesis by (simp add: split_loop.simps[of _ _ "[]"])
  next
    case (Cons c cs)
    show ?thesis
    proof (cases "P c")
      case True
      have "length (dropWhile P cs) < length s"
        using Cons length_dropWhile_le[of P cs] by simp
      with 1 have "length (split_loop (Plus (Cls P)) [] (dropWhile P cs))
          = Suc (count_runs P (dropWhile P cs))"
        by blast
      with True Cons length_dropWhile_le[of P cs] show ?thesis
        by (simp add: split_loop.simps[of _ _ "c # cs"] rx_first_Plus_Cls count_runs_in
            le_imp_less_Suc)
    next
      case False
      from 1 Cons have "length (split_loop (Plus (Cls P)) (piece @ [c]) cs) = Suc (count_runs P cs)"
        by simp
      with False Cons show ?thesis
        by (simp add: split_loop.simps[of _ _ "c # cs"] rx_first_Plus_Cls count_runs_out)
    qed
  qed
qed

lemma rx_first_line_break:
  "rx_first line_break s =
     (if take 2 s = [13, 10] then Some (drop 2 s)
      else if take 1 s = [10] then Some (drop 1 s) else None)"
proof (cases s)
  case Nil
  then show ?thesis by (simp add: rx_first_def line_break_def seqs_Cons seqs_Nil Opt_def)
next
  case (Cons c cs)
  then show ?thesis
    by (cases cs) (auto simp: rx_first_def line_break_def seqs_Cons seqs_Nil Opt_def)
qed

lemma split_loop_lines:
  "length (split_loop line_break piece s) = Suc (length (filter (\<lambda>c. c = 10) s))"
proof (induction s arbitrary: piece rule: length_induct)
  case (1 s)
  show ?case
  proof (cases s)
    case Nil
    then show ?thesis by (simp add: split_loop.simps[of _ _ "[]"])
  next
    case (Cons c cs)
    consider (crlf) r where "c = 13" "cs = 10 # r" | (lf) "c = 10"
      | (other) "c \<noteq> 10" "take 2 s \<noteq> [13, 10]"
      using Cons by (cases cs) auto
    then show ?thesis
    proof cases
      case crlf
      with 1 Cons have "length (split_loop line_break [] r) = Suc (length (filter (\<lambda>c. c = 10) r))"
        by simp
      with crlf Cons show ?thesis
        by (simp add: split_loop.simps[of _ _ "13 # 10 # r"] rx_first_line_break)
    next
      case lf
      from 1 Cons have "length (split_loop line_break [] cs) = Suc (length (filter (\<lambda>c. c = 10) cs))"
        by simp
      with lf Cons show ?thesis
        by (simp add: split_loop.simps[of _ _ "10 # cs"] rx_first_line_break)
    next
      case other
      from 1 Cons have "length (split_loop line_break (piece @ [c]) cs)
          = Suc (length (filter (\<lambda>c. c = 10) cs))"
        by simp
      moreover from other Cons have "rx_first line_break (c # cs) = None"
        by (simp add: rx_first_line_break)
      ultimately show ?thesis
        using other Cons by (simp add: split_loop.simps[of _ _ "c # cs"])
    qed
  qed
qed

lemma dropWhile_all: "list_all P s \<Longrightarrow> dropWhile P s = []"
  by (simp add: list_all_iff)

lemma trim_blank: "trim s = [] \<longleftrightarrow> list_all is_ws s"
proof
  assume "trim s = []"
  then have "dropWhile is_ws (rev (dropWhile is_ws s)) = []" by (simp add: trim_def)
  then have all: "\<forall>x \<in> set (dropWhile is_ws s). is_ws x" by (simp add: dropWhile_eq_Nil_conv)
  have "dropWhile is_ws s = []"
  proof (rule ccontr)
    assume ne: "dropWhile is_ws s \<noteq> []"
    then have "\<not> is_ws (hd (dropWhile is_ws s))" by (rule hd_dropWhile)
    moreover from ne have "hd (dropWhile is_ws s) \<in> set (dropWhile is_ws s)" by simp
    ultimately show False using all by blast
  qed
  then show "list_all is_ws s" by (simp add: dropWhile_eq_Nil_conv list_all_iff)
next
  assume "list_all is_ws s"
  then show "trim s = []" by (simp add: trim_def dropWhile_all)
qed

lemma trim_decompose:
  "\<exists>pre post. s = pre @ trim s @ post \<and> list_all is_ws pre \<and> list_all is_ws post"
proof -
  define d where "d = dropWhile is_ws s"
  have "s = takeWhile is_ws s @ d" by (simp add: d_def)
  moreover have "d = trim s @ rev (takeWhile is_ws (rev d))"
  proof -
    have "rev (takeWhile is_ws (rev d) @ dropWhile is_ws (rev d))
        = rev (dropWhile is_ws (rev d)) @ rev (takeWhile is_ws (rev d))"
      by (rule rev_append)
    then have "rev (rev d) = rev (dropWhile is_ws (rev d)) @ rev (takeWhile is_ws (rev d))"
      by (simp only: takeWhile_dropWhile_id)
    then show ?thesis by (simp only: rev_rev_ident trim_def d_def)
  qed
  moreover have "list_all is_ws (takeWhile is_ws s)"
    by (auto simp: list_all_iff dest: set_takeWhileD)
  moreover have "list_all is_ws (rev (takeWhile is_ws (rev d)))"
    by (auto simp: list_all_iff dest: set_takeWhileD)
  ultimately show ?thesis by metis
qed

lemma trim_ends:
  assumes "trim s \<noteq> []"
  shows "\<not> is_ws (hd (trim s))" and "\<not> is_ws (last (trim s))"
proof -
  define d where "d = dropWhile is_ws s"
  define e where "e = dropWhile is_ws (rev d)"
  have t: "trim s = rev e" by (simp add: trim_def d_def e_def)
  with assms have ne: "e \<noteq> []" by simp
  then have "\<not> is_ws (hd e)" unfolding e_def by (rule hd_dropWhile)
  with ne t show "\<not> is_ws (last (trim s))" by (simp add: last_rev)
  from ne have dne: "d \<noteq> []" unfolding e_def by auto
  then have "\<not> is_ws (hd d)" unfolding d_def by (rule hd_dropWhile)
  moreover have "rev d = takeWhile is_ws (rev d) @ e" by (simp add: e_def)
  then have "last (rev d) = last e" using ne by (metis last_appendR)
  then have "hd d = last e" using dne by (simp add: last_rev)
  ultimately show "\<not> is_ws (hd (trim s))" using ne t by (simp add: hd_rev)
qed

lemma count_runs_none: "list_all (\<lambda>c. \<not> P c) s \<Longrightarrow> count_runs P s = 0"
  by (induction P s rule: count_runs.induct) simp_all

lemma count_runs_skip_prefix:
  "list_all (\<lambda>c. \<not> P c) pre \<Longrightarrow> count_runs P (pre @ s) = count_runs P s"
  by (induction pre) (simp_all add: count_runs_out)

lemma count_runs_skip_suffix:
  "list_all (\<lambda>c. \<not> P c) post \<Longrightarrow> count_runs P (s @ post) = count_runs P s"
proof (induction P s rule: count_runs.induct)
  case (1 P)
  then show ?case by (simp add: count_runs_none)
next
  case (2 P c)
  then show ?case
    by (cases post) (simp_all add: count_runs_none)
next
  case (3 P c d cs)
  then show ?case by simp
qed

lemma count_runs_alternate:
  "s \<noteq> [] \<Longrightarrow>
     count_runs P s + (if P (last s) then 0 else 1)
       = count_runs (\<lambda>c. \<not> P c) s + (if P (hd s) then 1 else 0)"
proof (induction P s rule: count_runs.induct)
  case (1 P)
  then show ?case by simp
next
  case (2 P c)
  then show ?case by simp
next
  case (3 P c d cs)
  then have "count_runs P (d # cs) + (if P (last (d # cs)) then 0 else 1)
       = count_runs (\<lambda>c. \<not> P c) (d # cs) + (if P d then 1 else 0)"
    by simp
  then show ?case by (cases "P c"; cases "P d") simp_all
qed

lemma words_count:
  "(if trim s \<noteq> [] then length (split_rx (Plus ws_cls) (trim s)) else 0)
     = count_runs (\<lambda>c. \<not> is_ws c) s"
proof -
  obtain pre post where s: "s = pre @ trim s @ post" and pre: "list_all is_ws pre"
    and post: "list_all is_ws post"
    using trim_decompose by blast
  have "count_runs (\<lambda>c. \<not> is_ws c) s = count_runs (\<lambda>c. \<not> is_ws c) (pre @ trim s @ post)"
    using s by simp
  also have "\<dots> = count_runs (\<lambda>c. \<not> is_ws c) (trim s @ post)"
    using pre by (intro count_runs_skip_prefix) simp
  also have "\<dots> = count_runs (\<lambda>c. \<not> is_ws c) (trim s)"
    using post by (intro count_runs_skip_suffix) simp
  finally have runs: "count_runs (\<lambda>c. \<not> is_ws c) s = count_runs (\<lambda>c. \<not> is_ws c) (trim s)" .
  show ?thesis
  proof (cases "trim s = []")
    case True
    with runs show ?thesis by simp
  next
    case False
    from count_runs_alternate[OF False, of is_ws] trim_ends[OF False]
    have "Suc (count_runs is_ws (trim s)) = count_runs (\<lambda>c. \<not> is_ws c) (trim s)"
      by simp
    with False runs show ?thesis
      by (simp add: split_rx_def ws_cls_def split_loop_runs)
  qed
qed

lemma sentence_marks: "one_of ''.!?'' = Cls is_sentence_mark"
  by (auto simp: one_of_def is_sentence_mark_def js_def fun_eq_iff)

lemma rx_first_line_break_Nil: "rx_first line_break [] = None"
  by (simp add: rx_first_line_break)

text \<open>
  Claim C9 as stated fails for an input of white space only: it is not empty and has no
  sentence mark, and its sentence count is 0, not 1.
\<close>

theorem textStats_counterexample:
  "sentences (textStats (js '' '')) = 0 \<and> claimed_sentences (js '' '') = 1"
  by code_simp

text \<open>
  Claim C9, amended. The five counts of \<^verbatim>\<open>textStats\<close>: the length, the length without
  white space, the number of runs that white space separates, the number of line breaks plus
  one, and the number of runs of sentence marks, or with no such run 1 for an input that is
  not blank and 0 for a blank one.
\<close>

theorem textStats_counts:
  "textStats s =
     \<lparr>characters = length s,
      charactersNoSpaces = length (filter (\<lambda>c. \<not> is_ws c) s),
      words = count_runs (\<lambda>c. \<not> is_ws c) s,
      lines = Suc (length (filter (\<lambda>c. c = 10) s)),
      sentences = (if count_runs is_sentence_mark s \<noteq> 0 then count_runs is_sentence_mark s
                   else if list_all is_ws s then 0 else 1)\<rparr>"
proof -
  have same: "(if s = [] then [] else s) = s" by simp
  have a: "length (replace_all ws_cls [] s) = length (filter (\<lambda>c. \<not> is_ws c) s)"
    by (simp add: ws_cls_def replace_ws)
  have b: "length (split_rx (seqs [Opt (Cls (\<lambda>c. c = 13)), Cls (\<lambda>c. c = 10)]) s)
      = Suc (length (filter (\<lambda>c. c = 10) s))"
    unfolding line_break_def[symmetric]
    by (simp add: split_rx_def split_loop_lines rx_first_line_break_Nil)
  have c: "length (match_all (Plus (one_of ''.!?'')) s) = count_runs is_sentence_mark s"
    by (simp only: sentence_marks match_all_runs)
  show ?thesis
    unfolding textStats_def Let_def same a b c words_count
    by (simp add: trim_blank)
qed

subsection \<open>Parsed tokens\<close>

lemma try_catch_None:
  "try_catch body (\<lambda>e. Inr None) = Inr None \<longleftrightarrow> (body = Inr None \<or> (\<exists>e. body = Inl e))"
  by (cases body) (auto simp: try_catch_def)









end
